theory Spec2Isabelle
  imports Main
begin

section \<open>Data model of the crawler\<close>

text \<open>
  The crawl engine of \<^verbatim>\<open>crawler/crawler.go\<close>. Go strings and byte slices are
  \<open>string\<close> (lists of 8-bit characters). Go's \<open>int\<close> and \<open>time.Duration\<close>
  are 64-bit signed integers: they are modelled as \<open>int\<close>, and every arithmetic result
  the source computes is wrapped by \<open>int64\<close>.
\<close>

type_synonym bytes = string

definition int64 :: "int \<Rightarrow> int" where
  "int64 x = (x + 9223372036854775808) mod 18446744073709551616 - 9223372036854775808"

text \<open>
  The configuration (\<open>config.Config\<close>). The types of its fields are fixed by their uses
  in the crawler: the three lists are indexed or iterated as strings, \<open>MaxDepth\<close> is
  compared with an \<open>int\<close>, \<open>MinSleep\<close> and \<open>MaxSleep\<close> are arguments of
  \<open>rand.Intn\<close>, and \<open>Timeout\<close> is assigned from an \<open>int\<close>.
\<close>

record config =
  RootURLs :: "string list"
  UserAgents :: "string list"
  BlacklistedURLs :: "string list"
  MaxDepth :: int
  Timeout :: int
  MinSleep :: int
  MaxSleep :: int

text \<open>A run-time panic of the Go program is a value of the model.\<close>

datatype panic = InvalidIntnArgument | NilPointerDereference

datatype 'a res = Ok 'a | Panic panic

subsection \<open>The libraries the crawler calls\<close>

text \<open>
  \<open>net/url\<close>, \<open>net/http\<close> and \<open>golang.org/x/net/html\<close> are not part of the
  repository. Their pure functions are parameters of the model, collected in the record
  \<open>library\<close>; the crawler's own code is modelled over an arbitrary such record.
\<close>

record url =
  Scheme :: string
  Opaque :: string
  Host :: string
  Path :: string
  ForceQuery :: bool
  RawQuery :: string
  Fragment :: string

datatype token_type =
  ErrorToken | TextToken | StartTagToken | EndTagToken | SelfClosingTagToken
  | CommentToken | DoctypeToken

datatype atom = Atom_Zero | Atom_A | Atom_Other nat

record attribute =
  Key :: string
  Val :: string

record token =
  Type :: token_type
  DataAtom :: atom
  Attr :: "attribute list"

text \<open>
  \<open>url_Parse\<close> and \<open>url_ParseRequestURI\<close> return the error message (\<open>Inl\<close>) or
  the parsed URL. \<open>ResolveReference\<close> is the method on a non-nil receiver;
  \<open>ResolveReference_nil\<close> is the same method called on a nil receiver, which may
  panic. \<open>html_Tokenizer\<close> gives the tokens that successive calls of \<open>z.Next()\<close>
  and \<open>z.Token()\<close> produce for a body; once the list is exhausted the tokenizer is at
  the end of its input and \<open>z.Next()\<close> returns \<open>ErrorToken\<close>.
  \<open>NewRequestWithContext\<close> returns the error message when the request cannot be built.
\<close>

record library =
  url_Parse :: "string \<Rightarrow> string + url"
  url_ParseRequestURI :: "string \<Rightarrow> string + url"
  ResolveReference :: "url \<Rightarrow> url \<Rightarrow> url"
  ResolveReference_nil :: "url \<Rightarrow> url res"
  URL_String :: "url \<Rightarrow> string"
  html_Tokenizer :: "bytes \<Rightarrow> token list"
  NewRequestWithContext :: "string \<Rightarrow> string option"

subsection \<open>String helpers of package strings\<close>

definition HasPrefix :: "string \<Rightarrow> string \<Rightarrow> bool" where
  "HasPrefix s p = (take (length p) s = p)"

fun Contains :: "string \<Rightarrow> string \<Rightarrow> bool" where
  "Contains [] sub = (sub = [])"
| "Contains (c # s) sub = (HasPrefix (c # s) sub \<or> Contains s sub)"

section \<open>Link normalization, filtering and extraction\<close>

text \<open>
  \<open>normalize\<close> (lines 128-137; named \<open>normalize_link\<close> here, since HOL has a
  constant \<open>normalize\<close>). The base is a pointer: \<open>None\<close> is the nil pointer
  that \<open>extractLinks\<close> passes when \<open>url.Parse\<close> of the base failed, and reading
  \<open>base.Scheme\<close> through it panics.
\<close>

definition normalize_link :: "library \<Rightarrow> string \<Rightarrow> url option \<Rightarrow> string res" where
  "normalize_link l href base =
     (if HasPrefix href ''//'' then
        (case base of
           None \<Rightarrow> Panic NilPointerDereference
         | Some b \<Rightarrow> Ok (Scheme b @ '':'' @ href))
      else
        (case url_Parse l href of
           Inl err \<Rightarrow> Ok ''''
         | Inr ref \<Rightarrow>
             (case base of
                None \<Rightarrow>
                  (case ResolveReference_nil l ref of
                     Panic p \<Rightarrow> Panic p
                   | Ok u \<Rightarrow> Ok (URL_String l u))
              | Some b \<Rightarrow> Ok (URL_String l (ResolveReference l b ref)))))"

text \<open>
  \<open>accept\<close> (lines 140-154) reads the configuration's blacklist and the visited set
  of the crawler. The loop over the blacklist returns \<open>false\<close> at the first entry
  that the link contains.
\<close>

fun blacklisted :: "string list \<Rightarrow> string \<Rightarrow> bool" where
  "blacklisted [] link = False"
| "blacklisted (blk # blks) link = (if Contains link blk then True else blacklisted blks link)"

definition accept :: "library \<Rightarrow> config \<Rightarrow> string set \<Rightarrow> string \<Rightarrow> bool" where
  "accept l c vis link =
     (if link = '''' then False
      else if link \<in> vis then False
      else if blacklisted (BlacklistedURLs c) link then False
      else (case url_ParseRequestURI l link of Inl err \<Rightarrow> False | Inr u \<Rightarrow> True))"

text \<open>
  \<open>extractLinks\<close> (lines 100-125). \<open>attrs_loop\<close> is the inner loop over the
  attributes of one anchor tag, \<open>tokens_loop\<close> the outer loop over the token stream.
\<close>

fun attrs_loop ::
  "library \<Rightarrow> config \<Rightarrow> string set \<Rightarrow> url option \<Rightarrow> attribute list \<Rightarrow> string list
    \<Rightarrow> string list res" where
  "attrs_loop l c vis base [] out = Ok out"
| "attrs_loop l c vis base (a # as) out =
     (if Key a \<noteq> ''href'' then attrs_loop l c vis base as out
      else
        (case normalize_link l (Val a) base of
           Panic p \<Rightarrow> Panic p
         | Ok href \<Rightarrow>
             attrs_loop l c vis base as (if accept l c vis href then out @ [href] else out)))"

fun tokens_loop ::
  "library \<Rightarrow> config \<Rightarrow> string set \<Rightarrow> url option \<Rightarrow> token list \<Rightarrow> string list
    \<Rightarrow> string list res" where
  "tokens_loop l c vis base [] out = Ok out"
| "tokens_loop l c vis base (t # ts) out =
     (if Type t = ErrorToken then Ok out
      else if Type t = StartTagToken then
        (if DataAtom t \<noteq> Atom_A then tokens_loop l c vis base ts out
         else
           (case attrs_loop l c vis base (Attr t) out of
              Panic p \<Rightarrow> Panic p
            | Ok out' \<Rightarrow> tokens_loop l c vis base ts out'))
      else tokens_loop l c vis base ts out)"

definition extractLinks ::
  "library \<Rightarrow> config \<Rightarrow> string set \<Rightarrow> bytes \<Rightarrow> string \<Rightarrow> string list res" where
  "extractLinks l c vis body base =
     (let baseURL = (case url_Parse l base of Inl err \<Rightarrow> None | Inr u \<Rightarrow> Some u)
      in tokens_loop l c vis baseURL (html_Tokenizer l body) [])"

section \<open>The network, the clock and the random source\<close>

text \<open>
  Everything the crawler observes from outside is read from a \<open>world\<close>: whether the
  context is cancelled, the monotonic clock (in nanoseconds), the raw values of the random
  source and the answer of the HTTP client. Each is a function of a logical time, the
  field \<open>tick\<close> of the crawler, which every such call advances by one.
\<close>

datatype net_error = Transport string | ContextDone

datatype error = RequestConstruction string | Net net_error

text \<open>
  A response body is a reader: it yields \<open>content\<close> and then ends, with the error
  \<open>failure\<close> when the connection broke or the context was cancelled while reading.
\<close>

record read_closer =
  content :: bytes
  failure :: "net_error option"

record response =
  StatusCode :: int
  Body :: read_closer

record world =
  ctx_Err :: "nat \<Rightarrow> bool"
  clock :: "nat \<Rightarrow> int"
  rand_draw :: "nat \<Rightarrow> nat"
  client_Do :: "nat \<Rightarrow> string \<Rightarrow> string \<Rightarrow> net_error + response"

record env =
  cfg :: config
  lib :: library
  world :: world

text \<open>
  The trace is ghost state: it records, in order, each return of \<open>fetch\<close> (who called
  it, for which URL, and whether the error was nil), each insertion into the visited set,
  each link put into the queue and each call of \<open>time.Sleep\<close> (with its duration in
  nanoseconds). The source's log lines are not modelled.
\<close>

datatype origin = Root | Walk

datatype event = EvFetch origin string bool | EvVisit string | EvEnqueue string | EvSleep int

record crawler =
  links :: "string list"
  visited :: "string set"
  startTime :: int
  tick :: nat
  trace :: "event list"

definition NewCrawler :: crawler where
  "NewCrawler = \<lparr>links = [], visited = {}, startTime = 0, tick = 0, trace = []\<rparr>"

text \<open>\<open>rand.Intn(n)\<close> panics unless \<open>n > 0\<close>; otherwise it returns a value below \<open>n\<close>.\<close>

definition Intn :: "world \<Rightarrow> int \<Rightarrow> crawler \<Rightarrow> int res \<times> crawler" where
  "Intn w n s =
     (if n \<le> 0 then (Panic InvalidIntnArgument, s)
      else (Ok (int (rand_draw w (tick s)) mod n), s\<lparr>tick := Suc (tick s)\<rparr>))"

text \<open>\<open>time.Since\<close> is the difference of two clock readings, saturated to 64 bits.\<close>

definition time_Since :: "int \<Rightarrow> int \<Rightarrow> int" where
  "time_Since now start = max (- 9223372036854775808) (min 9223372036854775807 (now - start))"

definition isTimeoutReached :: "env \<Rightarrow> crawler \<Rightarrow> bool \<times> crawler" where
  "isTimeoutReached e s =
     (if Timeout (cfg e) = 0 then (False, s)
      else (time_Since (clock (world e) (tick s)) (startTime s)
              > int64 (Timeout (cfg e) * 1000000000),
            s\<lparr>tick := Suc (tick s)\<rparr>))"

text \<open>
  The condition \<open>ctx.Err() != nil || c.isTimeoutReached()\<close> of lines 60 and 158: the
  clock is read only when the context is not cancelled.
\<close>

definition stop_requested :: "env \<Rightarrow> crawler \<Rightarrow> bool \<times> crawler" where
  "stop_requested e s =
     (if ctx_Err (world e) (tick s) then (True, s\<lparr>tick := Suc (tick s)\<rparr>)
      else isTimeoutReached e (s\<lparr>tick := Suc (tick s)\<rparr>))"

section \<open>The fetcher\<close>

text \<open>
  \<open>io.ReadAll(io.LimitReader(r, n))\<close>: at most \<open>n\<close> bytes are read; the reader's
  error is met only when its content ends before the limit.
\<close>

definition ReadAll_LimitReader :: "read_closer \<Rightarrow> nat \<Rightarrow> bytes \<times> error option" where
  "ReadAll_LimitReader r n =
     (if n \<le> length (content r) then (take n (content r), None)
      else (content r, map_option Net (failure r)))"

text \<open>
  \<open>fetch\<close> (lines 81-96) returns the pair (body, error) of the Go function; a nil
  slice is the empty list.
\<close>

definition fetch :: "env \<Rightarrow> string \<Rightarrow> crawler \<Rightarrow> (bytes \<times> error option) res \<times> crawler" where
  "fetch e raw s =
     (case NewRequestWithContext (lib e) raw of
        Some err \<Rightarrow> (Ok ([], Some (RequestConstruction err)), s)
      | None \<Rightarrow>
          (case Intn (world e) (int (length (UserAgents (cfg e)))) s of
             (Panic p, s1) \<Rightarrow> (Panic p, s1)
           | (Ok i, s1) \<Rightarrow>
               (case client_Do (world e) (tick s1) raw (UserAgents (cfg e) ! nat i) of
                  Inl err \<Rightarrow> (Ok ([], Some (Net err)), s1\<lparr>tick := Suc (tick s1)\<rparr>)
                | Inr resp \<Rightarrow>
                    (Ok (ReadAll_LimitReader (Body resp) (2 ^ 20)),
                     s1\<lparr>tick := Suc (tick s1)\<rparr>))))"

section \<open>The walk controller\<close>

text \<open>
  Line 178 computes the sleep:
  \<open>time.Duration(c.rand.Intn(c.cfg.MaxSleep-c.cfg.MinSleep+1)+c.cfg.MinSleep) * time.Microsecond\<close>.
  The result is a duration in nanoseconds; each of the four operations wraps to 64 bits.
\<close>

definition draw_sleep :: "env \<Rightarrow> crawler \<Rightarrow> int res \<times> crawler" where
  "draw_sleep e s =
     (case Intn (world e) (int64 (int64 (MaxSleep (cfg e) - MinSleep (cfg e)) + 1)) s of
        (Panic p, s1) \<Rightarrow> (Panic p, s1)
      | (Ok r, s1) \<Rightarrow> (Ok (int64 (int64 (r + MinSleep (cfg e)) * 1000)), s1))"

text \<open>
  \<open>depthFirst\<close> (lines 157-182). The recursion ends because \<open>depth\<close> grows towards
  \<open>MaxDepth\<close>; \<open>depth + 1\<close> cannot overflow, being at most \<open>MaxDepth\<close>.
\<close>

function depthFirst :: "env \<Rightarrow> int \<Rightarrow> crawler \<Rightarrow> unit res \<times> crawler" where
  "depthFirst e depth s =
     (if MaxDepth (cfg e) \<le> depth then (Ok (), s)
      else
        (case stop_requested e s of
           (True, s1) \<Rightarrow> (Ok (), s1)
         | (False, s1) \<Rightarrow>
             if links s1 = [] then (Ok (), s1)
             else
               (case Intn (world e) (int (length (links s1))) s1 of
                  (Panic p, s2) \<Rightarrow> (Panic p, s2)
                | (Ok idx, s2) \<Rightarrow>
                    let target = links s2 ! nat idx;
                        s3 = s2\<lparr>links := take (nat idx) (links s2) @ drop (nat idx + 1) (links s2),
                                visited := insert target (visited s2),
                                trace := trace s2 @ [EvVisit target]\<rparr>
                    in
                      (case fetch e target s3 of
                         (Panic p, s4) \<Rightarrow> (Panic p, s4)
                       | (Ok (body, Some err), s4) \<Rightarrow>
                           (Ok (), s4\<lparr>trace := trace s4 @ [EvFetch Walk target False]\<rparr>)
                       | (Ok (body, None), s4) \<Rightarrow>
                           let s5 = s4\<lparr>trace := trace s4 @ [EvFetch Walk target True]\<rparr> in
                             (case extractLinks (lib e) (cfg e) (visited s5) body target of
                                Panic p \<Rightarrow> (Panic p, s5)
                              | Ok new \<Rightarrow>
                                  let s6 = s5\<lparr>links := links s5 @ new,
                                              trace := trace s5 @ map EvEnqueue new\<rparr>
                                  in
                                    (case draw_sleep e s6 of
                                       (Panic p, s7) \<Rightarrow> (Panic p, s7)
                                     | (Ok sleep, s7) \<Rightarrow>
                                         let s8 = s7\<lparr>tick := Suc (tick s7),
                                                     trace := trace s7 @ [EvSleep sleep]\<rparr>
                                         in depthFirst e (depth + 1) s8))))))"
  by pat_completeness auto
termination
  by (relation "measure (\<lambda>(e, depth, s). nat (MaxDepth (cfg e) - depth))") auto

text \<open>
  \<open>Crawl\<close> (lines 56-78). \<open>Crawl_seed\<close> is lines 64-74 of the loop body: it picks a
  root, fetches it and seeds the queue from its links. It answers \<open>Ok True\<close> when the
  walk is to start and \<open>Ok False\<close> where the source says \<open>continue\<close>.
\<close>

definition Crawl_seed :: "env \<Rightarrow> crawler \<Rightarrow> bool res \<times> crawler" where
  "Crawl_seed e s =
     (case Intn (world e) (int (length (RootURLs (cfg e)))) s of
        (Panic p, s1) \<Rightarrow> (Panic p, s1)
      | (Ok i, s1) \<Rightarrow>
          let root = RootURLs (cfg e) ! nat i in
            (case fetch e root s1 of
               (Panic p, s2) \<Rightarrow> (Panic p, s2)
             | (Ok (body, Some err), s2) \<Rightarrow>
                 (Ok False, s2\<lparr>trace := trace s2 @ [EvFetch Root root False]\<rparr>)
             | (Ok (body, None), s2) \<Rightarrow>
                 let s3 = s2\<lparr>trace := trace s2 @ [EvFetch Root root True]\<rparr> in
                   (case extractLinks (lib e) (cfg e) (visited s3) body root of
                      Panic p \<Rightarrow> (Panic p, s3)
                    | Ok ls \<Rightarrow>
                        (Ok (ls \<noteq> []),
                         s3\<lparr>links := ls, trace := trace s3 @ map EvEnqueue ls\<rparr>))))"

text \<open>
  The outer loop has no bound of its own, so the model counts its iterations:
  \<open>Crawl_loop e n s\<close> runs at most \<open>n\<close> of them and says whether the loop returned,
  panicked, or was still running.
\<close>

datatype outcome = Returned | Panicked panic | Running

fun Crawl_loop :: "env \<Rightarrow> nat \<Rightarrow> crawler \<Rightarrow> outcome \<times> crawler" where
  "Crawl_loop e 0 s = (Running, s)"
| "Crawl_loop e (Suc n) s =
     (case stop_requested e s of
        (True, s1) \<Rightarrow> (Returned, s1)
      | (False, s1) \<Rightarrow>
          (case Crawl_seed e s1 of
             (Panic p, s2) \<Rightarrow> (Panicked p, s2)
           | (Ok False, s2) \<Rightarrow> Crawl_loop e n s2
           | (Ok True, s2) \<Rightarrow>
               (case depthFirst e 0 s2 of
                  (Panic p, s3) \<Rightarrow> (Panicked p, s3)
                | (Ok u, s3) \<Rightarrow> Crawl_loop e n s3)))"

definition Crawl :: "env \<Rightarrow> nat \<Rightarrow> crawler \<Rightarrow> outcome \<times> crawler" where
  "Crawl e n s =
     Crawl_loop e n (s\<lparr>startTime := clock (world e) (tick s), tick := Suc (tick s)\<rparr>)"

text \<open>
  One visit of the walk, for the proofs: the body of \<open>depthFirst\<close> below its depth
  check, answering \<open>Ok True\<close> where \<open>depthFirst\<close> calls itself and \<open>Ok False\<close>
  where it returns. Lemma \<open>depthFirst_unfold\<close> shows that \<open>depthFirst\<close> is the
  iteration of this step.
\<close>

definition walk_step :: "env \<Rightarrow> crawler \<Rightarrow> bool res \<times> crawler" where
  "walk_step e s =
     (case stop_requested e s of
        (True, s1) \<Rightarrow> (Ok False, s1)
      | (False, s1) \<Rightarrow>
          if links s1 = [] then (Ok False, s1)
          else
            (case Intn (world e) (int (length (links s1))) s1 of
               (Panic p, s2) \<Rightarrow> (Panic p, s2)
             | (Ok idx, s2) \<Rightarrow>
                 let target = links s2 ! nat idx;
                     s3 = s2\<lparr>links := take (nat idx) (links s2) @ drop (nat idx + 1) (links s2),
                             visited := insert target (visited s2),
                             trace := trace s2 @ [EvVisit target]\<rparr>
                 in
                   (case fetch e target s3 of
                      (Panic p, s4) \<Rightarrow> (Panic p, s4)
                    | (Ok (body, Some err), s4) \<Rightarrow>
                        (Ok False, s4\<lparr>trace := trace s4 @ [EvFetch Walk target False]\<rparr>)
                    | (Ok (body, None), s4) \<Rightarrow>
                        let s5 = s4\<lparr>trace := trace s4 @ [EvFetch Walk target True]\<rparr> in
                          (case extractLinks (lib e) (cfg e) (visited s5) body target of
                             Panic p \<Rightarrow> (Panic p, s5)
                           | Ok new \<Rightarrow>
                               let s6 = s5\<lparr>links := links s5 @ new,
                                           trace := trace s5 @ map EvEnqueue new\<rparr>
                               in
                                 (case draw_sleep e s6 of
                                    (Panic p, s7) \<Rightarrow> (Panic p, s7)
                                  | (Ok sleep, s7) \<Rightarrow>
                                      (Ok True,
                                       s7\<lparr>tick := Suc (tick s7),
                                          trace := trace s7 @ [EvSleep sleep]\<rparr>))))))"

section \<open>Properties named by the specification\<close>

text \<open>
  The links an extraction collects, in the specification's words: the \<open>href\<close> values of
  the anchor start tags, in document order, each resolved against the base and kept when
  the filter accepts it.
\<close>

definition resolved :: "library \<Rightarrow> url \<Rightarrow> string \<Rightarrow> string" where
  "resolved l b href =
     (if HasPrefix href ''//'' then Scheme b @ '':'' @ href
      else (case url_Parse l href of
              Inl err \<Rightarrow> ''''
            | Inr ref \<Rightarrow> URL_String l (ResolveReference l b ref)))"

definition anchor_hrefs :: "token list \<Rightarrow> string list" where
  "anchor_hrefs ts =
     concat (map (\<lambda>t. map Val (filter (\<lambda>a. Key a = ''href'') (Attr t)))
                 (filter (\<lambda>t. Type t = StartTagToken \<and> DataAtom t = Atom_A) ts))"

definition collected :: "library \<Rightarrow> config \<Rightarrow> string set \<Rightarrow> url \<Rightarrow> token list \<Rightarrow> string list" where
  "collected l c vis b ts = filter (accept l c vis) (map (resolved l b) (anchor_hrefs ts))"

text \<open>
  The stop condition in the specification's words: the context is cancelled, or the
  timeout is positive and the time elapsed since the start of the session exceeds it.
  A world is steady when a cancelled context stays cancelled and the clock never runs
  backwards.
\<close>

definition cancelled_or_timed_out :: "env \<Rightarrow> crawler \<Rightarrow> bool" where
  "cancelled_or_timed_out e s =
     (ctx_Err (world e) (tick s)
      \<or> (0 < Timeout (cfg e)
         \<and> Timeout (cfg e) * 1000000000 < time_Since (clock (world e) (tick s)) (startTime s)))"

definition steady :: "world \<Rightarrow> bool" where
  "steady w = ((\<forall>t. ctx_Err w t \<longrightarrow> ctx_Err w (Suc t)) \<and> (\<forall>t. clock w t \<le> clock w (Suc t)))"

text \<open>
  Idempotent visitation as the specification words it: after a URL has been inserted into
  the visited set, it is passed to \<open>fetch\<close> at most once.
\<close>

definition fetches_of :: "string \<Rightarrow> event list \<Rightarrow> nat" where
  "fetches_of u tr =
     length (filter (\<lambda>ev. case ev of EvFetch from v ok \<Rightarrow> v = u | _ \<Rightarrow> False) tr)"

definition idempotent_visitation :: "event list \<Rightarrow> bool" where
  "idempotent_visitation tr = (\<forall>xs u ys. tr = xs @ EvVisit u # ys \<longrightarrow> fetches_of u ys \<le> 1)"

text \<open>The sleeps of a trace lie between the configured bounds, given in microseconds.\<close>

definition sleeps_within :: "config \<Rightarrow> event list \<Rightarrow> bool" where
  "sleeps_within c tr =
     (\<forall>d. EvSleep d \<in> set tr \<longrightarrow> MinSleep c * 1000 \<le> d \<and> d \<le> MaxSleep c * 1000)"

text \<open>The events that only the walk produces.\<close>

fun walk_event :: "event \<Rightarrow> bool" where
  "walk_event (EvFetch from u ok) = (from = Walk)"
| "walk_event (EvVisit u) = True"
| "walk_event (EvEnqueue u) = False"
| "walk_event (EvSleep d) = True"

section \<open>A reference instance of the libraries\<close>

text \<open>
  An executable instance of the library parameters, used to run the crawler on concrete
  pages. It follows \<open>net/url\<close> of the Go standard library (\<open>getScheme\<close>,
  \<open>parse\<close>, \<open>resolvePath\<close>, \<open>ResolveReference\<close>, \<open>String\<close>) on URLs without
  user information and without percent-escapes: hosts and escapes are not validated and
  nothing is escaped on output. The general theorems below do not depend on it.
\<close>

definition is_letter :: "char \<Rightarrow> bool" where
  "is_letter c =
     (let n = (of_char c :: nat) in (97 \<le> n \<and> n \<le> 122) \<or> (65 \<le> n \<and> n \<le> 90))"

definition is_scheme_mark :: "char \<Rightarrow> bool" where
  "is_scheme_mark c =
     (let n = (of_char c :: nat)
      in (48 \<le> n \<and> n \<le> 57) \<or> c = CHR ''+'' \<or> c = CHR ''-'' \<or> c = CHR ''.'')"

definition is_CTL :: "char \<Rightarrow> bool" where
  "is_CTL c = (let n = (of_char c :: nat) in n < 32 \<or> n = 127)"

definition ToLower :: "string \<Rightarrow> string" where
  "ToLower s =
     map (\<lambda>c. let n = (of_char c :: nat) in if 65 \<le> n \<and> n \<le> 90 then char_of (n + 32) else c) s"

fun getScheme_from :: "string \<Rightarrow> string \<Rightarrow> string \<Rightarrow> string + (string \<times> string)" where
  "getScheme_from rawURL seen [] = Inr ('''', rawURL)"
| "getScheme_from rawURL seen (c # cs) =
     (if is_letter c then getScheme_from rawURL (seen @ [c]) cs
      else if is_scheme_mark c then
        (if seen = [] then Inr ('''', rawURL) else getScheme_from rawURL (seen @ [c]) cs)
      else if c = CHR '':'' then
        (if seen = [] then Inl ''missing protocol scheme'' else Inr (seen, cs))
      else Inr ('''', rawURL))"

definition getScheme :: "string \<Rightarrow> string + (string \<times> string)" where
  "getScheme rawURL = getScheme_from rawURL [] rawURL"

text \<open>\<open>strings.Cut\<close> at a one-byte separator: the text before and after its first occurrence.\<close>

definition Cut :: "string \<Rightarrow> char \<Rightarrow> string \<times> string" where
  "Cut s sep = (takeWhile (\<lambda>c. c \<noteq> sep) s, drop 1 (dropWhile (\<lambda>c. c \<noteq> sep) s))"

definition empty_url :: url where
  "empty_url = \<lparr>Scheme = '''', Opaque = '''', Host = '''', Path = '''', ForceQuery = False,
     RawQuery = '''', Fragment = ''''\<rparr>"

definition go_parse :: "string \<Rightarrow> bool \<Rightarrow> string + url" where
  "go_parse rawURL viaRequest =
     (if list_ex is_CTL rawURL then Inl ''net/url: invalid control character in URL''
      else if rawURL = '''' \<and> viaRequest then Inl ''empty url''
      else if rawURL = ''*'' then Inr (empty_url\<lparr>Path := ''*''\<rparr>)
      else
        (case getScheme rawURL of
           Inl err \<Rightarrow> Inl err
         | Inr (scheme, rest0) \<Rightarrow>
             let u0 = empty_url\<lparr>Scheme := ToLower scheme\<rparr>;
                 force = (rest0 \<noteq> [] \<and> last rest0 = CHR ''?'' \<and> count_list rest0 CHR ''?'' = 1);
                 rest = (if force then butlast rest0 else fst (Cut rest0 CHR ''?''));
                 u1 = (if force then u0\<lparr>ForceQuery := True\<rparr>
                       else u0\<lparr>RawQuery := snd (Cut rest0 CHR ''?'')\<rparr>)
             in
               if \<not> HasPrefix rest ''/'' \<and> Scheme u1 \<noteq> '''' then Inr (u1\<lparr>Opaque := rest\<rparr>)
               else if \<not> HasPrefix rest ''/'' \<and> viaRequest then Inl ''invalid URI for request''
               else if \<not> HasPrefix rest ''/'' \<and> CHR '':'' \<in> set (fst (Cut rest CHR ''/'')) then
                 Inl ''first path segment in URL cannot contain colon''
               else if (Scheme u1 \<noteq> '''' \<or> (\<not> viaRequest \<and> \<not> HasPrefix rest ''///''))
                       \<and> HasPrefix rest ''//'' then
                 Inr (u1\<lparr>Host := takeWhile (\<lambda>c. c \<noteq> CHR ''/'') (drop 2 rest),
                         Path := dropWhile (\<lambda>c. c \<noteq> CHR ''/'') (drop 2 rest)\<rparr>)
               else Inr (u1\<lparr>Path := rest\<rparr>)))"

definition go_Parse :: "string \<Rightarrow> string + url" where
  "go_Parse rawURL =
     (case go_parse (fst (Cut rawURL CHR ''#'')) False of
        Inl err \<Rightarrow> Inl err
      | Inr u \<Rightarrow> Inr (u\<lparr>Fragment := snd (Cut rawURL CHR ''#'')\<rparr>))"

definition go_ParseRequestURI :: "string \<Rightarrow> string + url" where
  "go_ParseRequestURI rawURL = go_parse rawURL True"

fun split_on :: "char \<Rightarrow> string \<Rightarrow> string list" where
  "split_on sep [] = [[]]"
| "split_on sep (c # cs) =
     (if c = sep then [] # split_on sep cs
      else (case split_on sep cs of [] \<Rightarrow> [[c]] | x # xs \<Rightarrow> (c # x) # xs))"

fun resolve_loop :: "string list \<Rightarrow> string \<Rightarrow> bool \<Rightarrow> string" where
  "resolve_loop [] dst first = dst"
| "resolve_loop (elem # es) dst first =
     (if elem = ''.'' then resolve_loop es dst False
      else if elem = ''..'' then
        (if CHR ''/'' \<notin> set (drop 1 dst) then resolve_loop es ''/'' True
         else resolve_loop es
                (''/'' @ rev (drop 1 (dropWhile (\<lambda>c. c \<noteq> CHR ''/'') (rev (drop 1 dst))))) first)
      else resolve_loop es ((if first then dst else dst @ ''/'') @ elem) False)"

definition resolvePath :: "string \<Rightarrow> string \<Rightarrow> string" where
  "resolvePath base ref =
     (let full = (if ref = '''' then base
                  else if hd ref \<noteq> CHR ''/'' then
                    rev (dropWhile (\<lambda>c. c \<noteq> CHR ''/'') (rev base)) @ ref
                  else ref)
      in if full = '''' then ''''
         else
           (let elems = split_on CHR ''/'' full;
                r = resolve_loop elems ''/'' True
                    @ (if last elems = ''.'' \<or> last elems = ''..'' then ''/'' else '''')
            in if 1 < length r \<and> r ! 1 = CHR ''/'' then drop 1 r else r))"

definition go_ResolveReference :: "url \<Rightarrow> url \<Rightarrow> url" where
  "go_ResolveReference u ref =
     (let url0 = ref\<lparr>Scheme := (if Scheme ref = '''' then Scheme u else Scheme ref)\<rparr> in
      if Scheme ref \<noteq> '''' \<or> Host ref \<noteq> '''' then url0\<lparr>Path := resolvePath (Path ref) ''''\<rparr>
      else if Opaque ref \<noteq> '''' then url0\<lparr>Host := '''', Path := ''''\<rparr>
      else
        (let url1 = (if Path ref = '''' \<and> \<not> ForceQuery ref \<and> RawQuery ref = '''' then
                       url0\<lparr>RawQuery := RawQuery u,
                            Fragment := (if Fragment ref = '''' then Fragment u else Fragment ref)\<rparr>
                     else url0)
         in if Path ref = '''' \<and> Opaque u \<noteq> '''' then
              url1\<lparr>Opaque := Opaque u, Host := '''', Path := ''''\<rparr>
            else url1\<lparr>Host := Host u, Path := resolvePath (Path u) (Path ref)\<rparr>))"

text \<open>
  On a nil receiver the method reads the receiver only when the reference has no scheme.
\<close>

definition go_ResolveReference_nil :: "url \<Rightarrow> url res" where
  "go_ResolveReference_nil ref =
     (if Scheme ref = '''' then Panic NilPointerDereference
      else Ok (ref\<lparr>Path := resolvePath (Path ref) ''''\<rparr>))"

definition go_String :: "url \<Rightarrow> string" where
  "go_String u =
     (let front = (if Scheme u \<noteq> '''' then Scheme u @ '':'' else '''');
          main =
            (if Opaque u \<noteq> '''' then front @ Opaque u
             else
               (let b1 = front
                      @ (if Scheme u \<noteq> '''' \<or> Host u \<noteq> '''' then
                           (if Host u \<noteq> '''' \<or> Path u \<noteq> '''' then ''//'' else '''') @ Host u
                         else '''');
                    b2 = b1 @ (if Path u \<noteq> '''' \<and> hd (Path u) \<noteq> CHR ''/'' \<and> Host u \<noteq> ''''
                               then ''/'' else '''');
                    b3 = b2 @ (if b2 = '''' \<and> CHR '':'' \<in> set (fst (Cut (Path u) CHR ''/''))
                               then ''./'' else '''')
                in b3 @ Path u))
      in main
         @ (if ForceQuery u \<or> RawQuery u \<noteq> '''' then ''?'' @ RawQuery u else '''')
         @ (if Fragment u \<noteq> '''' then ''#'' @ Fragment u else ''''))"

text \<open>
  \<open>http.NewRequestWithContext\<close> with method GET and a non-nil context fails exactly when
  \<open>url.Parse\<close> of the address fails.
\<close>

definition go_lib :: "(bytes \<Rightarrow> token list) \<Rightarrow> library" where
  "go_lib tokenizer =
     \<lparr>url_Parse = go_Parse, url_ParseRequestURI = go_ParseRequestURI,
      ResolveReference = go_ResolveReference, ResolveReference_nil = go_ResolveReference_nil,
      URL_String = go_String, html_Tokenizer = tokenizer,
      NewRequestWithContext = (\<lambda>raw. case go_Parse raw of Inl err \<Rightarrow> Some err | Inr u \<Rightarrow> None)\<rparr>"

subsection \<open>A small web\<close>

text \<open>
  One site, with the tokens the HTML tokenizer produces for each body: \<open>/home\<close> links
  to itself, \<open>/dup\<close> links twice to \<open>/p\<close> and once to a blacklisted address,
  \<open>/p\<close> has no link, and every other address of the site is answered with status 404
  and a short body. Other hosts cannot be reached.
\<close>

definition anchor :: "string \<Rightarrow> token" where
  "anchor h = \<lparr>Type = StartTagToken, DataAtom = Atom_A, Attr = [\<lparr>Key = ''href'', Val = h\<rparr>]\<rparr>"

definition anchor_end :: token where
  "anchor_end = \<lparr>Type = EndTagToken, DataAtom = Atom_A, Attr = []\<rparr>"

definition text_token :: token where
  "text_token = \<lparr>Type = TextToken, DataAtom = Atom_Zero, Attr = []\<rparr>"

definition demo_page :: "string \<Rightarrow> (int \<times> bytes) option" where
  "demo_page u =
     (if u = ''http://r.example/home'' then Some (200, ''<a href=/home>home</a>'')
      else if u = ''http://r.example/dup'' then
        Some (200, ''<a href=/p>1</a><a href=/p>2</a><a href=/ads/x>3</a>'')
      else if u = ''http://r.example/p'' then Some (200, ''no links'')
      else if HasPrefix u ''http://r.example/'' then Some (404, ''not found'')
      else None)"

definition demo_tokenizer :: "bytes \<Rightarrow> token list" where
  "demo_tokenizer body =
     (if body = ''<a href=/home>home</a>'' then [anchor ''/home'', text_token, anchor_end]
      else if body = ''<a href=/p>1</a><a href=/p>2</a><a href=/ads/x>3</a>'' then
        [anchor ''/p'', text_token, anchor_end, anchor ''/p'', text_token, anchor_end,
         anchor ''/ads/x'', text_token, anchor_end]
      else if body = '''' then []
      else [text_token])"

definition demo_lib :: library where
  "demo_lib = go_lib demo_tokenizer"

text \<open>
  The world of the site: the context is never cancelled, each tick takes a millisecond
  and the random source always yields zero.
\<close>

definition demo_world :: world where
  "demo_world =
     \<lparr>ctx_Err = (\<lambda>t. False), clock = (\<lambda>t. int t * 1000000), rand_draw = (\<lambda>t. 0),
      client_Do = (\<lambda>t u ua. case demo_page u of
                     None \<Rightarrow> Inl (Transport ''no such host'')
                   | Some (code, b) \<Rightarrow>
                       Inr \<lparr>StatusCode = code, Body = \<lparr>content = b, failure = None\<rparr>\<rparr>)\<rparr>"

definition demo_cfg :: "string \<Rightarrow> int \<Rightarrow> int \<Rightarrow> config" where
  "demo_cfg root depth pause =
     \<lparr>RootURLs = [root], UserAgents = [''urusai''], BlacklistedURLs = [''/ads/''],
      MaxDepth = depth, Timeout = 0, MinSleep = pause, MaxSleep = pause\<rparr>"

definition demo_env :: "string \<Rightarrow> int \<Rightarrow> int \<Rightarrow> env" where
  "demo_env root depth pause = \<lparr>cfg = demo_cfg root depth pause, lib = demo_lib, world = demo_world\<rparr>"

definition site_url :: "string \<Rightarrow> url" where
  "site_url p = \<lparr>Scheme = ''http'', Opaque = '''', Host = ''r.example'', Path = p,
     ForceQuery = False, RawQuery = '''', Fragment = ''''\<rparr>"

section \<open>Properties of traces\<close>

text \<open>The URLs a trace inserts into the visited set, and those it puts into the queue.\<close>

definition visits :: "event list \<Rightarrow> string set" where
  "visits tr = {u. EvVisit u \<in> set tr}"

definition enqueues :: "event list \<Rightarrow> string set" where
  "enqueues tr = {u. EvEnqueue u \<in> set tr}"

text \<open>No URL is put into the queue after it has been inserted into the visited set.\<close>

definition no_enqueue_after_visit :: "event list \<Rightarrow> bool" where
  "no_enqueue_after_visit tr = (\<forall>xs u ys. tr = xs @ EvVisit u # ys \<longrightarrow> EvEnqueue u \<notin> set ys)"

text \<open>
  Every sleep comes directly after a successful fetch of the walk and the links that were
  put into the queue from the fetched page.
\<close>

definition sleeps_follow_visits :: "event list \<Rightarrow> bool" where
  "sleeps_follow_visits tr =
     (\<forall>xs d ys. tr = xs @ EvSleep d # ys \<longrightarrow>
        (\<exists>zs u new. xs = zs @ EvFetch Walk u True # map EvEnqueue new))"

text \<open>A trace that is not empty starts with a fetch of a root.\<close>

definition starts_with_root :: "event list \<Rightarrow> bool" where
  "starts_with_root tr = (case tr of [] \<Rightarrow> True | ev # evs \<Rightarrow> (\<exists>u ok. ev = EvFetch Root u ok))"

text \<open>Two states of the crawler that differ at most in the logical time.\<close>

definition same_but_tick :: "crawler \<Rightarrow> crawler \<Rightarrow> bool" where
  "same_but_tick s s' =
     (links s' = links s \<and> visited s' = visited s \<and> trace s' = trace s
      \<and> startTime s' = startTime s)"

text \<open>
  A sleep configuration whose bounds are ordered and small enough for the duration in
  nanoseconds to fit 64 bits.
\<close>

definition sleep_bounds_fit :: "config \<Rightarrow> bool" where
  "sleep_bounds_fit c =
     (MinSleep c \<le> MaxSleep c \<and> - 9223372036854775 \<le> MinSleep c
      \<and> MaxSleep c \<le> 9223372036854775)"

text \<open>Invariant of a session: what the trace says was visited is in the visited set.\<close>

definition session_inv :: "crawler \<Rightarrow> bool" where
  "session_inv s = (visits (trace s) \<subseteq> visited s \<and> no_enqueue_after_visit (trace s))"

text \<open>The events a run has appended to the trace of the state it started from.\<close>

definition new_events :: "crawler \<Rightarrow> crawler \<Rightarrow> event list" where
  "new_events s s' = drop (length (trace s)) (trace s')"

text \<open>
  Relations between the state a run starts from and a state it reaches: only root fetches
  and enqueues were added and the visited set is the same; and the visited set has grown
  by exactly the URLs whose insertion the added events record.
\<close>

definition rooted :: "crawler \<Rightarrow> crawler \<Rightarrow> bool" where
  "rooted s0 s =
     (\<exists>evs. trace s = trace s0 @ evs \<and> (\<forall>ev\<in>set evs. \<not> walk_event ev)
            \<and> visited s = visited s0)"

definition grown :: "crawler \<Rightarrow> crawler \<Rightarrow> bool" where
  "grown s0 s = (\<exists>evs. trace s = trace s0 @ evs \<and> visited s = visited s0 \<union> visits evs)"

definition shape_inv :: "crawler \<Rightarrow> bool" where
  "shape_inv s = (sleeps_follow_visits (trace s) \<and> starts_with_root (trace s))"

text \<open>
  A second world for the site, in which every tick takes a second, and a configuration
  with a timeout of one second.
\<close>

definition slow_env :: "string \<Rightarrow> int \<Rightarrow> env" where
  "slow_env root depth =
     \<lparr>cfg = (demo_cfg root depth 0)\<lparr>Timeout := 1\<rparr>, lib = demo_lib,
      world = demo_world\<lparr>clock := (\<lambda>t. int t * 1000000000)\<rparr>\<rparr>"

section \<open>The link filter\<close>

lemma HasPrefix_iff: "HasPrefix s p \<longleftrightarrow> (\<exists>post. s = p @ post)"
proof
  assume "HasPrefix s p"
  then have "s = p @ drop (length p) s"
    by (metis HasPrefix_def append_take_drop_id)
  then show "\<exists>post. s = p @ post" ..
next
  assume "\<exists>post. s = p @ post"
  then show "HasPrefix s p" by (auto simp: HasPrefix_def)
qed

text \<open>\<open>strings.Contains\<close> finds the substring at any position.\<close>

lemma Contains_iff: "Contains s sub \<longleftrightarrow> (\<exists>pre post. s = pre @ sub @ post)"
proof (induction s)
  case Nil
  then show ?case by auto
next
  case (Cons c s)
  show ?case
  proof
    assume "Contains (c # s) sub"
    then consider "HasPrefix (c # s) sub" | "Contains s sub" by auto
    then show "\<exists>pre post. c # s = pre @ sub @ post"
    proof cases
      case 1
      then obtain post where "c # s = sub @ post" by (auto simp: HasPrefix_iff)
      then have "c # s = [] @ sub @ post" by simp
      then show ?thesis by blast
    next
      case 2
      then obtain pre post where "s = pre @ sub @ post" using Cons.IH by auto
      then have "c # s = (c # pre) @ sub @ post" by simp
      then show ?thesis by blast
    qed
  next
    assume "\<exists>pre post. c # s = pre @ sub @ post"
    then obtain pre post where eq: "c # s = pre @ sub @ post" by auto
    show "Contains (c # s) sub"
    proof (cases pre)
      case Nil
      with eq have "HasPrefix (c # s) sub" by (auto simp: HasPrefix_iff)
      then show ?thesis by simp
    next
      case (Cons a pre')
      with eq have "s = pre' @ sub @ post" by simp
      then have "Contains s sub" using Cons.IH by blast
      then show ?thesis by simp
    qed
  qed
qed

lemma blacklisted_iff: "blacklisted bl link \<longleftrightarrow> (\<exists>blk\<in>set bl. Contains link blk)"
  by (induction bl) auto

lemma accept_not_visited: "accept l c vis u \<Longrightarrow> u \<notin> vis \<and> u \<noteq> []"
  by (auto simp: accept_def split: if_splits)

text \<open>
  Claim C7. \<open>accept\<close> answers false exactly when the candidate is the empty string, or
  is in the visited set, or contains one of the blacklist entries somewhere (before it any
  text \<open>pre\<close>, after it any text \<open>post\<close>), or is refused by \<open>url.ParseRequestURI\<close>.
  The right-hand side is a disjunction, so the answer does not depend on the order in
  which the four conditions are tried.
\<close>

theorem accept_rejects_iff:
  "\<not> accept l c vis link \<longleftrightarrow>
     link = ''''
     \<or> link \<in> vis
     \<or> (\<exists>blk\<in>set (BlacklistedURLs c). \<exists>pre post. link = pre @ blk @ post)
     \<or> (\<exists>err. url_ParseRequestURI l link = Inl err)"
  by (auto simp: accept_def blacklisted_iff Contains_iff split: sum.splits)

lemma demo_blacklist: "BlacklistedURLs (demo_cfg root depth pause) = [''/ads/'']"
  by (simp add: demo_cfg_def)

theorem accept_rejects_iff_witness:
  "\<not> accept demo_lib (demo_cfg ''http://r.example/dup'' 1 0) {} ''http://r.example/ads/x''"
proof -
  have "\<exists>pre post. ''http://r.example/ads/x'' = pre @ ''/ads/'' @ post"
    by (rule exI[of _ "''http://r.example''"], rule exI[of _ "''x''"]) simp
  then have "\<exists>blk\<in>set (BlacklistedURLs (demo_cfg ''http://r.example/dup'' 1 0)).
               \<exists>pre post. ''http://r.example/ads/x'' = pre @ blk @ post"
    unfolding demo_blacklist by simp
  then show ?thesis
    using accept_rejects_iff[of demo_lib "demo_cfg ''http://r.example/dup'' 1 0" "{}"
        "''http://r.example/ads/x''"]
    by blast
qed

section \<open>Link normalization\<close>

lemma normalize_link_Some: "normalize_link l href (Some b) = Ok (resolved l b href)"
  by (simp add: normalize_link_def resolved_def split: sum.splits)

lemma go_Parse_base:
  "go_Parse ''https://a.example/x/'' =
     Inr \<lparr>Scheme = ''https'', Opaque = '''', Host = ''a.example'', Path = ''/x/'',
          ForceQuery = False, RawQuery = '''', Fragment = ''''\<rparr>"
  by code_simp

lemma go_Parse_relative:
  "go_Parse ''z.html'' =
     Inr \<lparr>Scheme = '''', Opaque = '''', Host = '''', Path = ''z.html'',
          ForceQuery = False, RawQuery = '''', Fragment = ''''\<rparr>"
  by code_simp

lemma go_resolve_relative:
  "go_String (go_ResolveReference
      \<lparr>Scheme = ''https'', Opaque = '''', Host = ''a.example'', Path = ''/x/'',
       ForceQuery = False, RawQuery = '''', Fragment = ''''\<rparr>
      \<lparr>Scheme = '''', Opaque = '''', Host = '''', Path = ''z.html'',
       ForceQuery = False, RawQuery = '''', Fragment = ''''\<rparr>) = ''https://a.example/x/z.html''"
  by code_simp

lemma go_Parse_colon: "go_Parse '':bad'' = Inl ''missing protocol scheme''"
  by code_simp

text \<open>
  Claim C8. The result of \<open>normalize\<close> is a function of the href and the base alone
  (and of the URL library): an href that starts with \<open>//\<close> gives the scheme of the
  base, a colon and the href; any other href is parsed, and gives the empty string when
  parsing fails and the text of the reference resolved against the base otherwise. With
  the reference instance of \<open>net/url\<close> and the base \<open>https://a.example/x/\<close>, the href
  \<open>//b.example/y\<close> gives \<open>https://b.example/y\<close> and \<open>z.html\<close> gives
  \<open>https://a.example/x/z.html\<close>.
\<close>

theorem normalize_resolves:
  "(HasPrefix href ''//'' \<longrightarrow> normalize_link l href (Some b) = Ok (Scheme b @ '':'' @ href))
   \<and> (\<not> HasPrefix href ''//'' \<longrightarrow>
        (\<forall>err. url_Parse l href = Inl err \<longrightarrow> normalize_link l href (Some b) = Ok ''''))
   \<and> (\<not> HasPrefix href ''//'' \<longrightarrow>
        (\<forall>ref. url_Parse l href = Inr ref \<longrightarrow>
           normalize_link l href (Some b) = Ok (URL_String l (ResolveReference l b ref))))
   \<and> (\<exists>b0. url_Parse (go_lib tk) ''https://a.example/x/'' = Inr b0
         \<and> normalize_link (go_lib tk) ''//b.example/y'' (Some b0) = Ok ''https://b.example/y''
         \<and> normalize_link (go_lib tk) ''z.html'' (Some b0) = Ok ''https://a.example/x/z.html'')"
proof (intro conjI)
  show "HasPrefix href ''//'' \<longrightarrow> normalize_link l href (Some b) = Ok (Scheme b @ '':'' @ href)"
    by (simp add: normalize_link_def)
  show "\<not> HasPrefix href ''//'' \<longrightarrow>
        (\<forall>err. url_Parse l href = Inl err \<longrightarrow> normalize_link l href (Some b) = Ok '''')"
    by (simp add: normalize_link_def)
  show "\<not> HasPrefix href ''//'' \<longrightarrow>
        (\<forall>ref. url_Parse l href = Inr ref \<longrightarrow>
           normalize_link l href (Some b) = Ok (URL_String l (ResolveReference l b ref)))"
    by (simp add: normalize_link_def)
  show "\<exists>b0. url_Parse (go_lib tk) ''https://a.example/x/'' = Inr b0
         \<and> normalize_link (go_lib tk) ''//b.example/y'' (Some b0) = Ok ''https://b.example/y''
         \<and> normalize_link (go_lib tk) ''z.html'' (Some b0) = Ok ''https://a.example/x/z.html''"
    by (simp add: normalize_link_def go_lib_def go_Parse_base go_Parse_relative go_resolve_relative
          HasPrefix_def)
qed

theorem normalize_resolves_witness:
  "normalize_link demo_lib ''//b.example/y''
      (Some \<lparr>Scheme = ''https'', Opaque = '''', Host = ''a.example'', Path = ''/x/'',
             ForceQuery = False, RawQuery = '''', Fragment = ''''\<rparr>) = Ok ''https://b.example/y''
   \<and> normalize_link demo_lib '':bad''
      (Some \<lparr>Scheme = ''https'', Opaque = '''', Host = ''a.example'', Path = ''/x/'',
             ForceQuery = False, RawQuery = '''', Fragment = ''''\<rparr>) = Ok ''''
   \<and> normalize_link demo_lib ''z.html''
      (Some \<lparr>Scheme = ''https'', Opaque = '''', Host = ''a.example'', Path = ''/x/'',
             ForceQuery = False, RawQuery = '''', Fragment = ''''\<rparr>) = Ok ''https://a.example/x/z.html''"
proof -
  let ?b = "\<lparr>Scheme = ''https'', Opaque = '''', Host = ''a.example'', Path = ''/x/'',
             ForceQuery = False, RawQuery = '''', Fragment = ''''\<rparr>"
  have p1: "HasPrefix ''//b.example/y'' ''//''" by (simp add: HasPrefix_def)
  have p2: "\<not> HasPrefix '':bad'' ''//''" by (simp add: HasPrefix_def)
  have p3: "\<not> HasPrefix ''z.html'' ''//''" by (simp add: HasPrefix_def)
  have e2: "url_Parse demo_lib '':bad'' = Inl ''missing protocol scheme''"
    by (simp add: demo_lib_def go_lib_def go_Parse_colon)
  have e3: "url_Parse demo_lib ''z.html'' =
      Inr \<lparr>Scheme = '''', Opaque = '''', Host = '''', Path = ''z.html'',
          ForceQuery = False, RawQuery = '''', Fragment = ''''\<rparr>"
    by (simp add: demo_lib_def go_lib_def go_Parse_relative)
  have r3: "URL_String demo_lib (ResolveReference demo_lib ?b
      \<lparr>Scheme = '''', Opaque = '''', Host = '''', Path = ''z.html'',
          ForceQuery = False, RawQuery = '''', Fragment = ''''\<rparr>) = ''https://a.example/x/z.html''"
    by (simp add: demo_lib_def go_lib_def go_resolve_relative)
  show ?thesis
    using normalize_resolves[of "''//b.example/y''" demo_lib ?b demo_tokenizer]
      normalize_resolves[of "'':bad''" demo_lib ?b demo_tokenizer]
      normalize_resolves[of "''z.html''" demo_lib ?b demo_tokenizer]
      p1 p2 p3 e2 e3 r3
    by simp
qed

section \<open>Link extraction\<close>

lemma attrs_loop_Some:
  "attrs_loop l c vis (Some b) as out =
     Ok (out @ filter (accept l c vis) (map (resolved l b) (map Val (filter (\<lambda>a. Key a = ''href'') as))))"
  by (induction as arbitrary: out) (simp_all add: normalize_link_Some)

lemma anchor_hrefs_Nil: "anchor_hrefs [] = []"
  by (simp add: anchor_hrefs_def)

lemma anchor_hrefs_Cons:
  "anchor_hrefs (t # ts) =
     (if Type t = StartTagToken \<and> DataAtom t = Atom_A
      then map Val (filter (\<lambda>a. Key a = ''href'') (Attr t)) @ anchor_hrefs ts
      else anchor_hrefs ts)"
  by (simp add: anchor_hrefs_def)

lemma tokens_loop_Some:
  "tokens_loop l c vis (Some b) ts out =
     Ok (out @ collected l c vis b (takeWhile (\<lambda>t. Type t \<noteq> ErrorToken) ts))"
proof (induction ts arbitrary: out)
  case Nil
  then show ?case by (simp add: collected_def anchor_hrefs_Nil)
next
  case (Cons t ts)
  show ?case
    by (simp add: Cons.IH attrs_loop_Some collected_def anchor_hrefs_Cons anchor_hrefs_Nil)
qed

lemma extractLinks_parsed:
  "url_Parse l base = Inr b \<Longrightarrow>
     extractLinks l c vis body base =
       Ok (collected l c vis b (takeWhile (\<lambda>t. Type t \<noteq> ErrorToken) (html_Tokenizer l body)))"
  by (simp add: extractLinks_def tokens_loop_Some)

text \<open>
  Claim C6. For every body, when the base address parses, \<open>extractLinks\<close> returns
  normally (it never panics and has no error result), and what it returns is the list of
  links collected from the tokens that precede the first \<open>ErrorToken\<close>: nothing
  after that token is read, and the list is empty when no anchor precedes it.
\<close>

theorem extractLinks_total:
  assumes "url_Parse l base = Inr b"
  shows "extractLinks l c vis body base =
           Ok (collected l c vis b (takeWhile (\<lambda>t. Type t \<noteq> ErrorToken) (html_Tokenizer l body)))"
  using assms by (rule extractLinks_parsed)

subsection \<open>Facts about the demo site\<close>

lemma parse_dup: "go_Parse ''http://r.example/dup'' = Inr (site_url ''/dup'')"
  unfolding site_url_def by code_simp

lemma parse_home: "go_Parse ''http://r.example/home'' = Inr (site_url ''/home'')"
  unfolding site_url_def by code_simp

lemma parse_p: "go_Parse ''http://r.example/p'' = Inr (site_url ''/p'')"
  unfolding site_url_def by code_simp

lemma parse_missing: "go_Parse ''http://r.example/missing'' = Inr (site_url ''/missing'')"
  unfolding site_url_def by code_simp

lemma resolved_p: "resolved demo_lib (site_url ''/dup'') ''/p'' = ''http://r.example/p''"
  unfolding site_url_def by code_simp

lemma resolved_ads: "resolved demo_lib (site_url ''/dup'') ''/ads/x'' = ''http://r.example/ads/x''"
  unfolding site_url_def by code_simp

lemma resolved_home: "resolved demo_lib (site_url ''/home'') ''/home'' = ''http://r.example/home''"
  unfolding site_url_def by code_simp

lemma accept_p: "accept demo_lib (demo_cfg root depth pause) vis ''http://r.example/p'' = (''http://r.example/p'' \<notin> vis)"
proof -
  have "go_ParseRequestURI ''http://r.example/p'' = Inr (site_url ''/p'')"
    unfolding site_url_def by code_simp
  moreover have "\<not> Contains ''http://r.example/p'' ''/ads/''" by code_simp
  ultimately show ?thesis by (simp add: accept_def demo_cfg_def demo_lib_def go_lib_def)
qed

lemma accept_home: "accept demo_lib (demo_cfg root depth pause) vis ''http://r.example/home'' = (''http://r.example/home'' \<notin> vis)"
proof -
  have "go_ParseRequestURI ''http://r.example/home'' = Inr (site_url ''/home'')"
    unfolding site_url_def by code_simp
  moreover have "\<not> Contains ''http://r.example/home'' ''/ads/''" by code_simp
  ultimately show ?thesis by (simp add: accept_def demo_cfg_def demo_lib_def go_lib_def)
qed

lemma accept_ads: "\<not> accept demo_lib (demo_cfg root depth pause) vis ''http://r.example/ads/x''"
proof -
  have "Contains ''http://r.example/ads/x'' ''/ads/''" by code_simp
  then show ?thesis by (simp add: accept_def demo_cfg_def)
qed

lemma tokens_dup:
  "html_Tokenizer demo_lib ''<a href=/p>1</a><a href=/p>2</a><a href=/ads/x>3</a>'' =
     [anchor ''/p'', text_token, anchor_end, anchor ''/p'', text_token, anchor_end,
         anchor ''/ads/x'', text_token, anchor_end]"
  by (simp add: demo_lib_def go_lib_def demo_tokenizer_def)

lemma tokens_home:
  "html_Tokenizer demo_lib ''<a href=/home>home</a>'' = [anchor ''/home'', text_token, anchor_end]"
  by (simp add: demo_lib_def go_lib_def demo_tokenizer_def)

lemma tokens_text:
  "html_Tokenizer demo_lib ''no links'' = [text_token]"
  "html_Tokenizer demo_lib ''not found'' = [text_token]"
  by (simp_all add: demo_lib_def go_lib_def demo_tokenizer_def)

lemma url_Parse_demo: "url_Parse demo_lib = go_Parse"
  by (simp add: demo_lib_def go_lib_def)

lemma token_types:
  "Type (anchor h) = StartTagToken" "Type text_token = TextToken" "Type anchor_end = EndTagToken"
  "DataAtom (anchor h) = Atom_A" "Attr (anchor h) = [\<lparr>Key = ''href'', Val = h\<rparr>]"
  by (simp_all add: anchor_def text_token_def anchor_end_def)

lemma collected_dup:
  "collected demo_lib (demo_cfg root depth pause) vis (site_url ''/dup'')
        [anchor ''/p'', text_token, anchor_end, anchor ''/p'', text_token, anchor_end,
         anchor ''/ads/x'', text_token, anchor_end] =
     (if ''http://r.example/p'' \<in> vis then [] else [''http://r.example/p'', ''http://r.example/p''])"
  by (simp add: collected_def anchor_hrefs_def token_types
        resolved_p resolved_ads accept_p accept_ads)

theorem extractLinks_total_witness:
  "extractLinks demo_lib (demo_cfg ''http://r.example/dup'' 1 0) {}
      ''<a href=/p>1</a><a href=/p>2</a><a href=/ads/x>3</a>'' ''http://r.example/dup''
     = Ok [''http://r.example/p'', ''http://r.example/p'']"
proof -
  have "url_Parse demo_lib ''http://r.example/dup'' = Inr (site_url ''/dup'')"
    by (simp add: url_Parse_demo parse_dup)
  from extractLinks_total[OF this] show ?thesis
    by (simp add: tokens_dup collected_dup token_types)
qed

section \<open>The contract of the fetcher\<close>

lemma ReadAll_LimitReader_length: "length (fst (ReadAll_LimitReader r n)) \<le> n"
  by (simp add: ReadAll_LimitReader_def)

lemma Intn_positive:
  "0 < n \<Longrightarrow> Intn w n s = (Ok (int (rand_draw w (tick s)) mod n), s\<lparr>tick := Suc (tick s)\<rparr>)"
  by (simp add: Intn_def)

text \<open>
  Claim C5. \<open>fetch\<close> returns an error when the request cannot be built and when the
  client reports an error (a transport failure or a cancelled context); when the client
  returns a response, whatever its status code, \<open>fetch\<close> returns the first
  \<open>2^20\<close> bytes of its body, with an error only if reading the body failed before
  that limit (again a transport failure or a cancelled context). In every case the body
  returned has at most \<open>2^20\<close> bytes.
\<close>

theorem fetch_contract:
  "(NewRequestWithContext (lib e) raw = Some msg \<longrightarrow>
      fst (fetch e raw s) = Ok ([], Some (RequestConstruction msg)))
   \<and> (NewRequestWithContext (lib e) raw = None \<and> UserAgents (cfg e) \<noteq> [] \<longrightarrow>
        (let ua = UserAgents (cfg e) ! (rand_draw (world e) (tick s) mod length (UserAgents (cfg e)))
         in case client_Do (world e) (Suc (tick s)) raw ua of
              Inl err \<Rightarrow> fst (fetch e raw s) = Ok ([], Some (Net err))
            | Inr resp \<Rightarrow>
                fst (fetch e raw s) =
                  Ok (take (2 ^ 20) (content (Body resp)),
                      if 2 ^ 20 \<le> length (content (Body resp)) then None
                      else map_option Net (failure (Body resp)))))
   \<and> (\<forall>body err. fst (fetch e raw s) = Ok (body, err) \<longrightarrow> length body \<le> 2 ^ 20)"
proof (intro conjI impI allI)
  assume "NewRequestWithContext (lib e) raw = Some msg"
  then show "fst (fetch e raw s) = Ok ([], Some (RequestConstruction msg))"
    by (simp add: fetch_def)
next
  assume a: "NewRequestWithContext (lib e) raw = None \<and> UserAgents (cfg e) \<noteq> []"
  then have pos: "0 < int (length (UserAgents (cfg e)))" by simp
  have idx: "nat (int (rand_draw (world e) (tick s)) mod int (length (UserAgents (cfg e))))
             = rand_draw (world e) (tick s) mod length (UserAgents (cfg e))"
    by (simp add: nat_mod_distrib)
  show "let ua = UserAgents (cfg e) ! (rand_draw (world e) (tick s) mod length (UserAgents (cfg e)))
         in case client_Do (world e) (Suc (tick s)) raw ua of
              Inl err \<Rightarrow> fst (fetch e raw s) = Ok ([], Some (Net err))
            | Inr resp \<Rightarrow>
                fst (fetch e raw s) =
                  Ok (take (2 ^ 20) (content (Body resp)),
                      if 2 ^ 20 \<le> length (content (Body resp)) then None
                      else map_option Net (failure (Body resp)))"
    using a
    by (simp add: fetch_def Intn_positive[OF pos] idx ReadAll_LimitReader_def Let_def
             split: sum.splits)
next
  fix body err
  assume "fst (fetch e raw s) = Ok (body, err)"
  then show "length body \<le> 2 ^ 20"
    using ReadAll_LimitReader_length[of _ "2 ^ 20"]
    by (auto simp: fetch_def Intn_def split: option.splits sum.splits if_splits prod.splits res.splits)
       (metis fst_conv)
qed

lemma demo_page_missing: "demo_page ''http://r.example/missing'' = Some (404, ''not found'')"
  by (simp add: demo_page_def HasPrefix_def)

theorem fetch_contract_witness:
  "fst (fetch (demo_env ''http://r.example/dup'' 1 0) ''http://r.example/missing'' NewCrawler)
     = Ok (''not found'', None)"
proof -
  let ?e = "demo_env ''http://r.example/dup'' 1 0"
  have a: "NewRequestWithContext (lib ?e) ''http://r.example/missing'' = None
           \<and> UserAgents (cfg ?e) \<noteq> []"
    by (simp add: demo_env_def demo_lib_def go_lib_def parse_missing demo_cfg_def)
  have d: "client_Do (world ?e) t ''http://r.example/missing'' ua =
        Inr \<lparr>StatusCode = 404, Body = \<lparr>content = ''not found'', failure = None\<rparr>\<rparr>" for t ua
    by (simp add: demo_env_def demo_world_def demo_page_missing)
  show ?thesis
    using fetch_contract[of ?e "''http://r.example/missing''" "''''" NewCrawler] a
    by (simp add: d Let_def)
qed

section \<open>Frames of the primitive steps\<close>

text \<open>The calls that only observe the world change nothing but the logical time.\<close>

lemma Intn_frame:
  "Intn w n s = (r, s') \<Longrightarrow>
     links s' = links s \<and> visited s' = visited s \<and> trace s' = trace s \<and> startTime s' = startTime s"
  by (auto simp: Intn_def split: if_splits)

lemma Intn_range: "Intn w n s = (Ok i, s') \<Longrightarrow> 0 \<le> i \<and> i < n"
  by (auto simp: Intn_def split: if_splits)

lemma isTimeoutReached_frame:
  "isTimeoutReached e s = (b, s') \<Longrightarrow>
     links s' = links s \<and> visited s' = visited s \<and> trace s' = trace s \<and> startTime s' = startTime s"
  by (auto simp: isTimeoutReached_def split: if_splits)

lemma stop_requested_frame:
  "stop_requested e s = (b, s') \<Longrightarrow>
     links s' = links s \<and> visited s' = visited s \<and> trace s' = trace s \<and> startTime s' = startTime s"
  by (auto simp: stop_requested_def split: if_splits dest: isTimeoutReached_frame)

lemma fetch_frame:
  "fetch e raw s = (r, s') \<Longrightarrow>
     links s' = links s \<and> visited s' = visited s \<and> trace s' = trace s \<and> startTime s' = startTime s"
  by (auto simp: fetch_def split: option.splits prod.splits res.splits sum.splits dest: Intn_frame)

lemma draw_sleep_frame:
  "draw_sleep e s = (r, s') \<Longrightarrow>
     links s' = links s \<and> visited s' = visited s \<and> trace s' = trace s \<and> startTime s' = startTime s"
  by (auto simp: draw_sleep_def split: prod.splits res.splits dest: Intn_frame)

section \<open>The walk, one visit at a time\<close>

lemma depthFirst_unfold:
  "depthFirst e depth s =
     (if MaxDepth (cfg e) \<le> depth then (Ok (), s)
      else (case walk_step e s of
              (Panic p, s') \<Rightarrow> (Panic p, s')
            | (Ok False, s') \<Rightarrow> (Ok (), s')
            | (Ok True, s') \<Rightarrow> depthFirst e (depth + 1) s'))"
  apply (subst depthFirst.simps)
  apply (simp add: walk_step_def Let_def split: prod.splits res.splits option.splits bool.splits)
  done

text \<open>Every link that an extraction returns was accepted by the filter.\<close>

lemma attrs_loop_accepted:
  "attrs_loop l c vis base as out = Ok out' \<Longrightarrow> \<forall>u\<in>set out. accept l c vis u
     \<Longrightarrow> \<forall>u\<in>set out'. accept l c vis u"
proof (induction as arbitrary: out)
  case Nil
  then show ?case by simp
next
  case (Cons a as)
  show ?case
  proof (cases "Key a \<noteq> ''href''")
    case True
    with Cons.prems(1) have "attrs_loop l c vis base as out = Ok out'" by simp
    from Cons.IH[OF this Cons.prems(2)] show ?thesis .
  next
    case False
    show ?thesis
    proof (cases "normalize_link l (Val a) base")
      case (Panic p)
      with False Cons.prems(1) show ?thesis by simp
    next
      case (Ok href)
      let ?out = "if accept l c vis href then out @ [href] else out"
      from False Ok Cons.prems(1) have r: "attrs_loop l c vis base as ?out = Ok out'" by simp
      have "\<forall>u\<in>set ?out. accept l c vis u" using Cons.prems(2) by simp
      from Cons.IH[OF r this] show ?thesis .
    qed
  qed
qed

lemma tokens_loop_accepted:
  "tokens_loop l c vis base ts out = Ok out' \<Longrightarrow> \<forall>u\<in>set out. accept l c vis u
     \<Longrightarrow> \<forall>u\<in>set out'. accept l c vis u"
proof (induction ts arbitrary: out)
  case Nil
  then show ?case by simp
next
  case (Cons t ts)
  show ?case
  proof (cases "Type t = ErrorToken")
    case True
    with Cons.prems show ?thesis by simp
  next
    case noerr: False
    show ?thesis
    proof (cases "Type t = StartTagToken \<and> DataAtom t = Atom_A")
      case True
      show ?thesis
      proof (cases "attrs_loop l c vis base (Attr t) out")
        case (Panic p)
        with True noerr Cons.prems(1) show ?thesis by simp
      next
        case (Ok mid)
        with True noerr Cons.prems(1) have r: "tokens_loop l c vis base ts mid = Ok out'" by simp
        from Cons.IH[OF r attrs_loop_accepted[OF Ok Cons.prems(2)]] show ?thesis .
      qed
    next
      case False
      with noerr Cons.prems(1) have "tokens_loop l c vis base ts out = Ok out'"
        by (cases "Type t = StartTagToken") simp_all
      from Cons.IH[OF this Cons.prems(2)] show ?thesis .
    qed
  qed
qed

lemma extractLinks_accepted:
  "extractLinks l c vis body base = Ok ls \<Longrightarrow> \<forall>u\<in>set ls. accept l c vis u"
  unfolding extractLinks_def Let_def by (erule tokens_loop_accepted) simp

text \<open>
  What one visit does to the crawler: nothing but the passing of time, or the removal of
  one link from the queue, its insertion into the visited set, and the events that follow.
\<close>

lemma walk_step_cases [consumes 1, case_names idle visit]:
  assumes ws: "walk_step e s = (r, s')"
  obtains
    (idle) "r = Ok False" "links s' = links s" "visited s' = visited s" "trace s' = trace s"
      "startTime s' = startTime s"
  | (visit) i new evs where "i < length (links s)"
      "visited s' = insert (links s ! i) (visited s)"
      "links s' = take i (links s) @ drop (Suc i) (links s) @ new"
      "trace s' = trace s @ EvVisit (links s ! i) # evs"
      "startTime s' = startTime s"
      "\<forall>u\<in>set new. accept (lib e) (cfg e) (visited s') u"
      "(evs = [] \<and> new = [] \<and> (\<exists>p. r = Panic p))
       \<or> (evs = [EvFetch Walk (links s ! i) False] \<and> new = [] \<and> r = Ok False)
       \<or> (evs = EvFetch Walk (links s ! i) True # map EvEnqueue new \<and> (\<exists>p. r = Panic p))
       \<or> (\<exists>d s6 s7. evs = EvFetch Walk (links s ! i) True # map EvEnqueue new @ [EvSleep d]
             \<and> r = Ok True \<and> draw_sleep e s6 = (Ok d, s7))"
proof -
  obtain b s1 where sr: "stop_requested e s = (b, s1)" by (cases "stop_requested e s")
  note f1 = stop_requested_frame[OF sr]
  show ?thesis
  proof (cases "b \<or> links s1 = []")
    case True
    then have "(r, s') = (Ok False, s1)" using ws sr by (cases b) (auto simp: walk_step_def)
    then show ?thesis using f1 idle by simp
  next
    case False
    then have nb: "b = False" and ne1: "links s1 \<noteq> []" by auto
    obtain ri s2 where it: "Intn (world e) (int (length (links s1))) s1 = (ri, s2)"
      by (cases "Intn (world e) (int (length (links s1))) s1")
    note f2 = Intn_frame[OF it]
    from ne1 have "0 < int (length (links s1))" by simp
    then obtain idx where ri: "ri = Ok idx" using it by (auto simp: Intn_def)
    with it have rng: "0 \<le> idx \<and> idx < int (length (links s1))" by (auto dest: Intn_range)
    let ?i = "nat idx"
    have i: "?i < length (links s)" using rng f1 by (simp add: nat_less_iff)
    have l2: "links s2 = links s" "visited s2 = visited s" "trace s2 = trace s"
      "startTime s2 = startTime s" using f1 f2 by simp_all
    let ?t = "links s2 ! ?i"
    have t: "?t = links s ! ?i" by (simp add: l2)
    let ?s3 = "s2\<lparr>links := take ?i (links s2) @ drop (?i + 1) (links s2),
                  visited := insert ?t (visited s2),
                  trace := trace s2 @ [EvVisit ?t]\<rparr>"
    obtain rf s4 where ft: "fetch e ?t ?s3 = (rf, s4)" by (cases "fetch e ?t ?s3")
    note f4 = fetch_frame[OF ft]
    have s4f: "links s4 = take ?i (links s) @ drop (Suc ?i) (links s)"
      "visited s4 = insert (links s ! ?i) (visited s)"
      "trace s4 = trace s @ [EvVisit (links s ! ?i)]" "startTime s4 = startTime s"
      using f4 by (simp_all add: l2)
    show ?thesis
    proof (cases rf)
      case (Panic p)
      have "(r, s') = (Panic p, s4)"
        using ws sr nb ne1 it ri ft Panic by (simp add: walk_step_def Let_def)
      then have "r = Panic p" "s' = s4" by simp_all
      then show ?thesis using visit[of ?i "[]" "[]"] i s4f by simp
    next
      case (Ok be)
      obtain body err where be: "be = (body, err)" by (cases be)
      show ?thesis
      proof (cases err)
        case (Some er)
        have "(r, s') = (Ok False, s4\<lparr>trace := trace s4 @ [EvFetch Walk ?t False]\<rparr>)"
          using ws sr nb ne1 it ri ft Ok be Some by (simp add: walk_step_def Let_def)
        then have "r = Ok False" "s' = s4\<lparr>trace := trace s4 @ [EvFetch Walk ?t False]\<rparr>"
          by simp_all
        then show ?thesis
          using visit[of ?i "[]" "[EvFetch Walk (links s ! ?i) False]"] i s4f t by simp
      next
        case None
        let ?s5 = "s4\<lparr>trace := trace s4 @ [EvFetch Walk ?t True]\<rparr>"
        show ?thesis
        proof (cases "extractLinks (lib e) (cfg e) (visited ?s5) body ?t")
          case (Panic p)
          have "(r, s') = (Panic p, ?s5)"
            using ws sr nb ne1 it ri ft Ok be None Panic by (simp add: walk_step_def Let_def)
          then have "r = Panic p" "s' = ?s5" by simp_all
          then show ?thesis
            using visit[of ?i "[]" "[EvFetch Walk (links s ! ?i) True]"] i s4f t by simp
        next
          case ex: (Ok new)
          have acc: "\<forall>u\<in>set new. accept (lib e) (cfg e) (insert (links s ! ?i) (visited s)) u"
            using extractLinks_accepted[OF ex] s4f by simp
          let ?s6 = "?s5\<lparr>links := links ?s5 @ new, trace := trace ?s5 @ map EvEnqueue new\<rparr>"
          obtain rd s7 where ds: "draw_sleep e ?s6 = (rd, s7)" by (cases "draw_sleep e ?s6")
          note f7 = draw_sleep_frame[OF ds]
          have s7f: "links s7 = take ?i (links s) @ drop (Suc ?i) (links s) @ new"
            "visited s7 = insert (links s ! ?i) (visited s)"
            "trace s7 = trace s @ EvVisit (links s ! ?i) # EvFetch Walk (links s ! ?i) True # map EvEnqueue new"
            "startTime s7 = startTime s"
            using f7 s4f t by simp_all
          show ?thesis
          proof (cases rd)
            case (Panic p)
            have "(r, s') = (Panic p, s7)"
              using ws sr nb ne1 it ri ft Ok be None ex ds Panic
              by (simp add: walk_step_def Let_def)
            then have "r = Panic p" "s' = s7" by simp_all
            then show ?thesis
              using visit[of ?i new "EvFetch Walk (links s ! ?i) True # map EvEnqueue new"]
                i s7f acc by simp
          next
            case (Ok d)
            have "(r, s') = (Ok True, s7\<lparr>tick := Suc (tick s7), trace := trace s7 @ [EvSleep d]\<rparr>)"
              using ws sr nb ne1 it ri ft \<open>rf = Ok be\<close> be None ex ds Ok
              by (simp add: walk_step_def Let_def)
            then have rs: "r = Ok True"
              "s' = s7\<lparr>tick := Suc (tick s7), trace := trace s7 @ [EvSleep d]\<rparr>" by simp_all
            have "\<exists>d' s6 s7'. EvFetch Walk (links s ! ?i) True # map EvEnqueue new @ [EvSleep d]
                     = EvFetch Walk (links s ! ?i) True # map EvEnqueue new @ [EvSleep d']
                   \<and> draw_sleep e s6 = (Ok d', s7')"
              using ds Ok by blast
            then show ?thesis
              using visit[of ?i new
                  "EvFetch Walk (links s ! ?i) True # map EvEnqueue new @ [EvSleep d]"]
                i s7f acc rs by simp
          qed
        qed
      qed
    qed
  qed
qed


text \<open>What the seeding phase of one outer iteration does to the crawler.\<close>

lemma Crawl_seed_cases [consumes 1, case_names quiet fetched]:
  assumes cs: "Crawl_seed e s = (r, s')"
  obtains
    (quiet) p where "r = Panic p" "same_but_tick s s'"
  | (fetched) i ok ls where "i < length (RootURLs (cfg e))"
      "visited s' = visited s" "startTime s' = startTime s"
      "trace s' = trace s @ EvFetch Root (RootURLs (cfg e) ! i) ok # map EvEnqueue ls"
      "\<forall>u\<in>set ls. accept (lib e) (cfg e) (visited s) u"
      "(\<not> ok \<and> ls = [] \<and> r = Ok False \<and> links s' = links s)
       \<or> (ok \<and> ls = [] \<and> (\<exists>p. r = Panic p) \<and> links s' = links s)
       \<or> (ok \<and> r = Ok (ls \<noteq> []) \<and> links s' = ls)"
proof -
  obtain ri s1 where it: "Intn (world e) (int (length (RootURLs (cfg e)))) s = (ri, s1)"
    by (cases "Intn (world e) (int (length (RootURLs (cfg e)))) s")
  note f1 = Intn_frame[OF it]
  show ?thesis
  proof (cases ri)
    case (Panic p)
    have "(r, s') = (Panic p, s1)" using cs it Panic by (simp add: Crawl_seed_def)
    then show ?thesis using quiet[of p] f1 by (simp add: same_but_tick_def)
  next
    case (Ok idx)
    with it have rng: "0 \<le> idx \<and> idx < int (length (RootURLs (cfg e)))"
      by (auto dest: Intn_range)
    let ?i = "nat idx"
    let ?root = "RootURLs (cfg e) ! ?i"
    have i: "?i < length (RootURLs (cfg e))" using rng by (simp add: nat_less_iff)
    obtain rf s2 where ft: "fetch e ?root s1 = (rf, s2)" by (cases "fetch e ?root s1")
    note f2 = fetch_frame[OF ft]
    have s2f: "links s2 = links s" "visited s2 = visited s" "trace s2 = trace s"
      "startTime s2 = startTime s" using f1 f2 by simp_all
    show ?thesis
    proof (cases rf)
      case (Panic p)
      have "(r, s') = (Panic p, s2)" using cs it Ok ft Panic by (simp add: Crawl_seed_def Let_def)
      then show ?thesis using quiet[of p] s2f by (simp add: same_but_tick_def)
    next
      case okf: (Ok be)
      obtain body err where be: "be = (body, err)" by (cases be)
      show ?thesis
      proof (cases err)
        case (Some er)
        have "(r, s') = (Ok False, s2\<lparr>trace := trace s2 @ [EvFetch Root ?root False]\<rparr>)"
          using cs it Ok ft okf be Some by (simp add: Crawl_seed_def Let_def)
        then have "r = Ok False" "s' = s2\<lparr>trace := trace s2 @ [EvFetch Root ?root False]\<rparr>"
          by simp_all
        then show ?thesis using fetched[of ?i False "[]"] i s2f by simp
      next
        case None
        let ?s3 = "s2\<lparr>trace := trace s2 @ [EvFetch Root ?root True]\<rparr>"
        show ?thesis
        proof (cases "extractLinks (lib e) (cfg e) (visited ?s3) body ?root")
          case (Panic p)
          have "(r, s') = (Panic p, ?s3)"
            using cs it Ok ft okf be None Panic by (simp add: Crawl_seed_def Let_def)
          then have "r = Panic p" "s' = ?s3" by simp_all
          then show ?thesis using fetched[of ?i True "[]"] i s2f by simp
        next
          case ex: (Ok ls)
          have acc: "\<forall>u\<in>set ls. accept (lib e) (cfg e) (visited s) u"
            using extractLinks_accepted[OF ex] s2f by simp
          have "(r, s') = (Ok (ls \<noteq> []), ?s3\<lparr>links := ls, trace := trace ?s3 @ map EvEnqueue ls\<rparr>)"
            using cs it Ok ft okf be None ex by (simp add: Crawl_seed_def Let_def)
          then have "r = Ok (ls \<noteq> [])"
            "s' = ?s3\<lparr>links := ls, trace := trace ?s3 @ map EvEnqueue ls\<rparr>" by simp_all
          then show ?thesis using fetched[of ?i True ls] i s2f acc by simp
        qed
      qed
    qed
  qed
qed

lemma stop_requested_same: "stop_requested e s = (b, s') \<Longrightarrow> same_but_tick s s'"
  by (simp add: same_but_tick_def stop_requested_frame)

text \<open>Induction over the walk and over the outer loop.\<close>

lemma depthFirst_rule:
  assumes step: "\<And>s r s'. W s \<Longrightarrow> 0 < MaxDepth (cfg e) \<Longrightarrow> walk_step e s = (r, s') \<Longrightarrow> W s'"
  shows "W s \<Longrightarrow> 0 \<le> depth \<Longrightarrow> W (snd (depthFirst e depth s))"
proof (induction "nat (MaxDepth (cfg e) - depth)" arbitrary: depth s)
  case 0
  then have "MaxDepth (cfg e) \<le> depth" by simp
  then have "depthFirst e depth s = (Ok (), s)" by (subst depthFirst_unfold) simp
  with 0 show ?case by simp
next
  case (Suc k)
  then have deeper: "\<not> MaxDepth (cfg e) \<le> depth" by linarith
  obtain r s1 where ws: "walk_step e s = (r, s1)" by (cases "walk_step e s")
  have "0 < MaxDepth (cfg e)" using deeper Suc.prems(2) by linarith
  note w1 = step[OF Suc.prems(1) this ws]
  show ?case
  proof (cases r)
    case (Panic p)
    then have "depthFirst e depth s = (Panic p, s1)"
      using deeper ws by (subst depthFirst_unfold) simp
    with w1 show ?thesis by simp
  next
    case (Ok again)
    show ?thesis
    proof (cases again)
      case False
      then have "depthFirst e depth s = (Ok (), s1)"
        using deeper ws Ok by (subst depthFirst_unfold) simp
      with w1 show ?thesis by simp
    next
      case True
      then have eq: "depthFirst e depth s = depthFirst e (depth + 1) s1"
        using deeper ws Ok by (subst depthFirst_unfold) simp
      have "k = nat (MaxDepth (cfg e) - (depth + 1))" using Suc.hyps(2) by linarith
      moreover have "0 \<le> depth + 1" using Suc.prems(2) by simp
      ultimately show ?thesis using Suc.hyps(1)[of "depth + 1" s1] w1 eq by simp
    qed
  qed
qed

lemma Crawl_loop_rule:
  assumes tick: "\<And>s s'. P s \<Longrightarrow> same_but_tick s s' \<Longrightarrow> P s'"
    and seed: "\<And>s r s'. P s \<Longrightarrow> Crawl_seed e s = (r, s') \<Longrightarrow> P s' \<and> (r = Ok True \<longrightarrow> W s')"
    and step: "\<And>s r s'. W s \<Longrightarrow> 0 < MaxDepth (cfg e) \<Longrightarrow> walk_step e s = (r, s') \<Longrightarrow> W s'"
    and done_walk: "\<And>s. W s \<Longrightarrow> P s"
  shows "P s \<Longrightarrow> P (snd (Crawl_loop e n s))"
proof (induction n arbitrary: s)
  case 0
  then show ?case by simp
next
  case (Suc n)
  obtain b s1 where sr: "stop_requested e s = (b, s1)" by (cases "stop_requested e s")
  have p1: "P s1" using tick[OF Suc.prems stop_requested_same[OF sr]] .
  show ?case
  proof (cases b)
    case True
    then have "Crawl_loop e (Suc n) s = (Returned, s1)" using sr by simp
    with p1 show ?thesis by simp
  next
    case False
    obtain r s2 where cs: "Crawl_seed e s1 = (r, s2)" by (cases "Crawl_seed e s1")
    note sd = seed[OF p1 cs]
    show ?thesis
    proof (cases r)
      case (Panic p)
      then have "Crawl_loop e (Suc n) s = (Panicked p, s2)" using sr False cs by simp
      with sd show ?thesis by simp
    next
      case (Ok go)
      show ?thesis
      proof (cases go)
        case False
        then have "Crawl_loop e (Suc n) s = Crawl_loop e n s2"
          using sr \<open>\<not> b\<close> cs Ok by simp
        with Suc.IH[of s2] sd show ?thesis by simp
      next
        case True
        with sd Ok have w2: "W s2" by simp
        obtain rd s3 where df: "depthFirst e 0 s2 = (rd, s3)" by (cases "depthFirst e 0 s2")
        have "W (snd (depthFirst e 0 s2))"
          by (rule depthFirst_rule[where W = W, OF step w2]) simp_all
        then have p3: "P s3" using df done_walk by simp
        show ?thesis
        proof (cases rd)
          case (Panic p)
          then have "Crawl_loop e (Suc n) s = (Panicked p, s3)"
            using sr \<open>\<not> b\<close> cs Ok True df by simp
          with p3 show ?thesis by simp
        next
          case (Ok u)
          then have "Crawl_loop e (Suc n) s = Crawl_loop e n s3"
            using sr \<open>\<not> b\<close> cs \<open>r = Ok go\<close> True df by simp
          with Suc.IH[OF p3] show ?thesis by simp
        qed
      qed
    qed
  qed
qed

lemma Crawl_rule:
  assumes tick: "\<And>s s'. P s \<Longrightarrow> same_but_tick s s' \<Longrightarrow> P s'"
    and start: "\<And>t. P s \<Longrightarrow> P (s\<lparr>startTime := t\<rparr>)"
    and seed: "\<And>s r s'. P s \<Longrightarrow> Crawl_seed e s = (r, s') \<Longrightarrow> P s' \<and> (r = Ok True \<longrightarrow> W s')"
    and step: "\<And>s r s'. W s \<Longrightarrow> 0 < MaxDepth (cfg e) \<Longrightarrow> walk_step e s = (r, s') \<Longrightarrow> W s'"
    and done_walk: "\<And>s. W s \<Longrightarrow> P s"
    and init: "P s"
  shows "P (snd (Crawl e n s))"
proof -
  let ?s0 = "s\<lparr>startTime := clock (world e) (tick s)\<rparr>"
  have "P ?s0" using start[OF init] .
  moreover have "same_but_tick ?s0 (s\<lparr>startTime := clock (world e) (tick s), tick := Suc (tick s)\<rparr>)"
    by (simp add: same_but_tick_def)
  ultimately have p0: "P (s\<lparr>startTime := clock (world e) (tick s), tick := Suc (tick s)\<rparr>)"
    by (rule tick)
  show ?thesis
    unfolding Crawl_def
    by (rule Crawl_loop_rule[where P = P and W = W, OF tick seed step done_walk p0])
qed


section \<open>Lemmas about traces\<close>

lemma visits_append: "visits (xs @ ys) = visits xs \<union> visits ys"
  by (auto simp: visits_def)

lemma visits_simps:
  "visits [] = {}" "visits (EvVisit u # tr) = insert u (visits tr)"
  "visits (EvFetch from v ok # tr) = visits tr" "visits (EvEnqueue v # tr) = visits tr"
  "visits (EvSleep d # tr) = visits tr"
  by (auto simp: visits_def)

lemma visits_map_enqueue: "visits (map EvEnqueue ls) = {}"
  by (auto simp: visits_def)

lemma enqueues_simps:
  "enqueues [] = {}" "enqueues (EvVisit u # tr) = enqueues tr"
  "enqueues (EvFetch from v ok # tr) = enqueues tr" "enqueues (EvEnqueue v # tr) = insert v (enqueues tr)"
  "enqueues (EvSleep d # tr) = enqueues tr"
  by (auto simp: enqueues_def)

lemma enqueues_append: "enqueues (xs @ ys) = enqueues xs \<union> enqueues ys"
  by (auto simp: enqueues_def)

lemma enqueues_map: "enqueues (map EvEnqueue ls) = set ls"
  by (auto simp: enqueues_def)

lemma no_enqueue_after_visit_append:
  assumes "no_enqueue_after_visit tr"
    and "enqueues evs \<inter> (visits tr \<union> visits evs) = {}"
  shows "no_enqueue_after_visit (tr @ evs)"
  unfolding no_enqueue_after_visit_def
proof (intro allI impI)
  fix xs u ys
  assume eq: "tr @ evs = xs @ EvVisit u # ys"
  have uv: "u \<in> visits tr \<union> visits evs"
    using eq by (metis in_set_conv_decomp visits_append visits_def mem_Collect_eq)
  then have notnew: "EvEnqueue u \<notin> set evs" using assms(2) by (auto simp: enqueues_def)
  from eq consider us where "tr = xs @ us" "us @ evs = EvVisit u # ys"
    | us where "tr @ us = xs" "evs = us @ EvVisit u # ys"
    by (auto simp: append_eq_append_conv2)
  then show "EvEnqueue u \<notin> set ys"
  proof cases
    case 1
    show ?thesis
    proof (cases us)
      case Nil
      with 1 have "set ys \<subseteq> set evs" by auto
      with notnew show ?thesis by auto
    next
      case (Cons a us')
      with 1 have "tr = xs @ EvVisit u # us'" "ys = us' @ evs" by auto
      with assms(1) notnew show ?thesis by (auto simp: no_enqueue_after_visit_def)
    qed
  next
    case 2
    then have "set ys \<subseteq> set evs" by auto
    with notnew show ?thesis by auto
  qed
qed

section \<open>Visited URLs and the queue\<close>

lemma same_but_tick_refl: "same_but_tick s s"
  by (simp add: same_but_tick_def)

lemma accepted_disjoint:
  "\<forall>u\<in>set ls. accept l c vis u \<Longrightarrow> set ls \<inter> vis = {}"
  by (auto dest: accept_not_visited)

lemma session_inv_seed:
  assumes "session_inv s" "Crawl_seed e s = (r, s')"
  shows "session_inv s'"
  using assms(2)
proof (cases rule: Crawl_seed_cases)
  case (quiet p)
  with assms(1) show ?thesis by (simp add: session_inv_def same_but_tick_def)
next
  case (fetched i ok ls)
  let ?evs = "EvFetch Root (RootURLs (cfg e) ! i) ok # map EvEnqueue ls"
  have d: "set ls \<inter> visited s = {}" using fetched(5) by (rule accepted_disjoint)
  have "enqueues ?evs \<inter> (visits (trace s) \<union> visits ?evs) = {}"
    using d assms(1) by (auto simp: enqueues_simps enqueues_map visits_simps visits_map_enqueue session_inv_def)
  with assms(1) have "no_enqueue_after_visit (trace s @ ?evs)"
    by (intro no_enqueue_after_visit_append) (simp_all add: session_inv_def)
  moreover have "visits (trace s @ ?evs) \<subseteq> visited s"
    using assms(1) by (simp add: visits_append visits_simps visits_map_enqueue session_inv_def)
  ultimately show ?thesis using fetched(2,4) by (simp add: session_inv_def)
qed

lemma walk_events_visits:
  assumes "(evs = [] \<and> new = [] \<and> (\<exists>p. r = Panic p))
       \<or> (evs = [EvFetch Walk t False] \<and> new = [] \<and> r = Ok False)
       \<or> (evs = EvFetch Walk t True # map EvEnqueue new \<and> (\<exists>p. r = Panic p))
       \<or> (\<exists>d s6 s7. evs = EvFetch Walk t True # map EvEnqueue new @ [EvSleep d]
             \<and> r = Ok True \<and> draw_sleep e s6 = (Ok d, s7))"
  shows "visits evs = {}" and "enqueues evs = set new"
  using assms
  by (auto simp: visits_simps visits_append visits_map_enqueue enqueues_simps enqueues_append
        enqueues_map)

lemma session_inv_step:
  assumes "session_inv s" "walk_step e s = (r, s')"
  shows "session_inv s'"
  using assms(2)
proof (cases rule: walk_step_cases)
  case idle
  with assms(1) show ?thesis by (simp add: session_inv_def)
next
  case (visit i new evs)
  let ?t = "links s ! i"
  note ve = walk_events_visits[OF visit(7)]
  have d: "set new \<inter> visited s' = {}" using visit(6) by (rule accepted_disjoint)
  have "enqueues (EvVisit ?t # evs) \<inter> (visits (trace s) \<union> visits (EvVisit ?t # evs)) = {}"
    using d assms(1) visit(2) ve
    by (auto simp: enqueues_simps visits_simps session_inv_def)
  with assms(1) have "no_enqueue_after_visit (trace s @ EvVisit ?t # evs)"
    by (intro no_enqueue_after_visit_append) (simp_all add: session_inv_def)
  moreover have "visits (trace s @ EvVisit ?t # evs) \<subseteq> visited s'"
    using assms(1) visit(2) ve by (auto simp: visits_append visits_simps session_inv_def)
  ultimately show ?thesis using visit(4) by (simp add: session_inv_def)
qed

lemma session_inv_Crawl:
  assumes "session_inv s"
  shows "session_inv (snd (Crawl e n s))"
proof (rule Crawl_rule[where P = session_inv and W = session_inv])
  show "\<And>s s'. session_inv s \<Longrightarrow> same_but_tick s s' \<Longrightarrow> session_inv s'"
    by (simp add: session_inv_def same_but_tick_def)
  show "\<And>t. session_inv s \<Longrightarrow> session_inv (s\<lparr>startTime := t\<rparr>)"
    by (simp add: session_inv_def)
  show "\<And>s r s'. session_inv s \<Longrightarrow> Crawl_seed e s = (r, s') \<Longrightarrow>
          session_inv s' \<and> (r = Ok True \<longrightarrow> session_inv s')"
    using session_inv_seed by blast
  show "\<And>s r s'. session_inv s \<Longrightarrow> 0 < MaxDepth (cfg e) \<Longrightarrow> walk_step e s = (r, s') \<Longrightarrow> session_inv s'"
    using session_inv_step by blast
  show "\<And>s. session_inv s \<Longrightarrow> session_inv s" .
  show "session_inv s" by fact
qed

text \<open>
  Claim C1, as amended. In a session (a run of \<open>Crawl\<close> from a state with an empty
  trace), once a URL has been inserted into the visited set it is never put into the link
  queue again, and it stays in the visited set. Nothing is claimed about fetches: the
  outer loop fetches its root without consulting the visited set.
\<close>

theorem visited_never_enqueued:
  assumes "trace s = []"
    and "trace (snd (Crawl e n s)) = xs @ EvVisit u # ys"
  shows "EvEnqueue u \<notin> set ys \<and> u \<in> visited (snd (Crawl e n s))"
proof -
  have "session_inv s" using assms(1)
    by (simp add: session_inv_def visits_simps no_enqueue_after_visit_def)
  then have inv: "session_inv (snd (Crawl e n s))" by (rule session_inv_Crawl)
  then have "EvEnqueue u \<notin> set ys"
    using assms(2) by (auto simp: session_inv_def no_enqueue_after_visit_def)
  moreover have "u \<in> visits (trace (snd (Crawl e n s)))"
    using assms(2) by (simp add: visits_def)
  ultimately show ?thesis using inv by (auto simp: session_inv_def)
qed


section \<open>The depth limit\<close>

lemma depthFirst_at_limit: "MaxDepth (cfg e) \<le> depth \<Longrightarrow> depthFirst e depth s = (Ok (), s)"
  by (subst depthFirst_unfold) simp

lemma rooted_Crawl:
  assumes "MaxDepth (cfg e) \<le> 0"
  shows "rooted s (snd (Crawl e n s))"
proof (rule Crawl_rule[where P = "rooted s" and W = "rooted s"])
  show "\<And>s1 s'. rooted s s1 \<Longrightarrow> same_but_tick s1 s' \<Longrightarrow> rooted s s'"
    by (simp add: rooted_def same_but_tick_def)
  show "\<And>t. rooted s s \<Longrightarrow> rooted s (s\<lparr>startTime := t\<rparr>)"
    by (simp add: rooted_def)
  show "\<And>s1 r s'. rooted s s1 \<Longrightarrow> Crawl_seed e s1 = (r, s') \<Longrightarrow>
          rooted s s' \<and> (r = Ok True \<longrightarrow> rooted s s')"
  proof -
    fix s1 r s'
    assume a: "rooted s s1" and cs: "Crawl_seed e s1 = (r, s')"
    from a obtain evs where evs: "trace s1 = trace s @ evs" "\<forall>ev\<in>set evs. \<not> walk_event ev"
      "visited s1 = visited s" by (auto simp: rooted_def)
    from cs have "rooted s s'"
    proof (cases rule: Crawl_seed_cases)
      case (quiet p)
      with a show ?thesis by (simp add: rooted_def same_but_tick_def)
    next
      case (fetched i ok ls)
      let ?new = "EvFetch Root (RootURLs (cfg e) ! i) ok # map EvEnqueue ls"
      have "trace s' = trace s @ (evs @ ?new)" using fetched(4) evs(1) by simp
      moreover have "\<forall>ev\<in>set (evs @ ?new). \<not> walk_event ev" using evs(2) by auto
      moreover have "visited s' = visited s" using fetched(2) evs(3) by simp
      ultimately show ?thesis unfolding rooted_def by blast
    qed
    then show "rooted s s' \<and> (r = Ok True \<longrightarrow> rooted s s')" by simp
  qed
  show "\<And>s1 r s'. rooted s s1 \<Longrightarrow> 0 < MaxDepth (cfg e) \<Longrightarrow> walk_step e s1 = (r, s') \<Longrightarrow> rooted s s'"
    using assms by simp
  show "\<And>s1. rooted s s1 \<Longrightarrow> rooted s s1" .
  show "rooted s s" by (simp add: rooted_def)
qed

text \<open>
  Claim C3. At a depth that has reached \<open>MaxDepth\<close> the walk returns at once and
  leaves the crawler as it was: no fetch, no visit, no sleep. With \<open>MaxDepth = 0\<close> a
  whole session adds only root fetches and enqueues to the trace, and the visited set
  stays as it was.
\<close>

theorem depth_limit_stops_walk:
  "(MaxDepth (cfg e) \<le> depth \<longrightarrow> depthFirst e depth s = (Ok (), s))
   \<and> (MaxDepth (cfg e) = 0 \<longrightarrow>
        (\<forall>ev\<in>set (new_events s (snd (Crawl e n s))). \<not> walk_event ev)
        \<and> visited (snd (Crawl e n s)) = visited s)"
proof (intro conjI impI)
  assume "MaxDepth (cfg e) \<le> depth"
  then show "depthFirst e depth s = (Ok (), s)" by (rule depthFirst_at_limit)
next
  assume "MaxDepth (cfg e) = 0"
  then have "rooted s (snd (Crawl e n s))" by (intro rooted_Crawl) simp
  then show "\<forall>ev\<in>set (new_events s (snd (Crawl e n s))). \<not> walk_event ev"
    and "visited (snd (Crawl e n s)) = visited s"
    by (auto simp: rooted_def new_events_def)
qed

section \<open>Cancellation and timeout\<close>

lemma time_Since_mono: "a \<le> b \<Longrightarrow> time_Since a start \<le> time_Since b start"
  by (simp add: time_Since_def)

lemma time_Since_le: "time_Since a start \<le> 9223372036854775807"
  by (simp add: time_Since_def)

lemma int64_id: "- 9223372036854775808 \<le> x \<Longrightarrow> x \<le> 9223372036854775807 \<Longrightarrow> int64 x = x"
  by (simp add: int64_def)

lemma stop_requested_fires:
  assumes st: "steady (world e)" and c: "cancelled_or_timed_out e s"
  shows "\<exists>s'. stop_requested e s = (True, s') \<and> same_but_tick s s' \<and> cancelled_or_timed_out e s'"
proof (cases "ctx_Err (world e) (tick s)")
  case True
  then have "stop_requested e s = (True, s\<lparr>tick := Suc (tick s)\<rparr>)"
    by (simp add: stop_requested_def)
  moreover have "ctx_Err (world e) (Suc (tick s))" using st True by (simp add: steady_def)
  ultimately show ?thesis by (simp add: same_but_tick_def cancelled_or_timed_out_def)
next
  case False
  with c have pos: "0 < Timeout (cfg e)"
    and late: "Timeout (cfg e) * 1000000000 < time_Since (clock (world e) (tick s)) (startTime s)"
    by (auto simp: cancelled_or_timed_out_def)
  have m1: "clock (world e) (tick s) \<le> clock (world e) (Suc (tick s))"
    and m2: "clock (world e) (Suc (tick s)) \<le> clock (world e) (Suc (Suc (tick s)))"
    using st by (simp_all add: steady_def)
  have l1: "Timeout (cfg e) * 1000000000 < time_Since (clock (world e) (Suc (tick s))) (startTime s)"
    using late time_Since_mono[OF m1, of "startTime s"] by linarith
  have l2: "Timeout (cfg e) * 1000000000
              < time_Since (clock (world e) (Suc (Suc (tick s)))) (startTime s)"
    using l1 time_Since_mono[OF m2, of "startTime s"] by linarith
  have "Timeout (cfg e) * 1000000000 \<le> 9223372036854775807"
    using late time_Since_le[of "clock (world e) (tick s)" "startTime s"] by linarith
  moreover have "- 9223372036854775808 \<le> Timeout (cfg e) * 1000000000" using pos by simp
  ultimately have w: "int64 (Timeout (cfg e) * 1000000000) = Timeout (cfg e) * 1000000000"
    by (intro int64_id)
  have "stop_requested e s = (True, s\<lparr>tick := Suc (Suc (tick s))\<rparr>)"
    using False pos l1 by (simp add: stop_requested_def isTimeoutReached_def w)
  then show ?thesis using pos l2 by (simp add: same_but_tick_def cancelled_or_timed_out_def)
qed

text \<open>
  Claim C4. In a steady world, when the context is cancelled or the positive timeout is
  exceeded at the head of an outer iteration or of a walk step, the loop returns and the
  walk returns, each without any event (so without a fetch) and without touching queue or
  visited set; and the condition still holds in the state they return, so every later
  check fires as well.
\<close>

theorem stop_check_prevents_fetch:
  assumes "steady (world e)" and "cancelled_or_timed_out e s"
  shows "(\<exists>s'. Crawl_loop e (Suc n) s = (Returned, s') \<and> same_but_tick s s'
               \<and> cancelled_or_timed_out e s')
         \<and> (\<exists>s'. depthFirst e depth s = (Ok (), s') \<and> same_but_tick s s'
               \<and> cancelled_or_timed_out e s')"
proof -
  from stop_requested_fires[OF assms] obtain s1 where
    sr: "stop_requested e s = (True, s1)" and sb: "same_but_tick s s1"
    and c1: "cancelled_or_timed_out e s1" by blast
  have "Crawl_loop e (Suc n) s = (Returned, s1)" using sr by simp
  then have a: "\<exists>s'. Crawl_loop e (Suc n) s = (Returned, s') \<and> same_but_tick s s'
               \<and> cancelled_or_timed_out e s'" using sb c1 by blast
  have b: "\<exists>s'. depthFirst e depth s = (Ok (), s') \<and> same_but_tick s s'
               \<and> cancelled_or_timed_out e s'"
  proof (cases "MaxDepth (cfg e) \<le> depth")
    case True
    then have "depthFirst e depth s = (Ok (), s)" by (rule depthFirst_at_limit)
    then show ?thesis using assms(2) by (simp add: same_but_tick_def)
  next
    case False
    have "walk_step e s = (Ok False, s1)" using sr by (simp add: walk_step_def)
    then have "depthFirst e depth s = (Ok (), s1)"
      using False by (subst depthFirst_unfold) simp
    then show ?thesis using sb c1 by blast
  qed
  from a b show ?thesis by blast
qed


section \<open>The sleep between visits\<close>

lemma int64_micro:
  assumes "- 9223372036854775 \<le> x" "x \<le> 9223372036854775"
  shows "int64 (x * 1000) = x * 1000"
proof -
  have "- 9223372036854775 * 1000 \<le> x * 1000" using assms(1) by (intro mult_right_mono) simp_all
  moreover have "x * 1000 \<le> 9223372036854775 * 1000" using assms(2) by (intro mult_right_mono) simp_all
  ultimately show ?thesis by (intro int64_id) simp_all
qed

lemma draw_sleep_fit:
  assumes "sleep_bounds_fit (cfg e)"
  shows "draw_sleep e s =
           (Ok ((int (rand_draw (world e) (tick s)) mod (MaxSleep (cfg e) - MinSleep (cfg e) + 1)
                 + MinSleep (cfg e)) * 1000),
            s\<lparr>tick := Suc (tick s)\<rparr>)"
proof -
  define lo hi where "lo = MinSleep (cfg e)" and "hi = MaxSleep (cfg e)"
  from assms have b: "lo \<le> hi" "- 9223372036854775 \<le> lo" "hi \<le> 9223372036854775"
    by (simp_all add: sleep_bounds_fit_def lo_def hi_def)
  have s1: "int64 (hi - lo) = hi - lo" using b by (intro int64_id) linarith+
  have s2: "int64 (hi - lo + 1) = hi - lo + 1" using b by (intro int64_id) linarith+
  have pos: "0 < hi - lo + 1" using b by linarith
  define r where "r = int (rand_draw (world e) (tick s)) mod (hi - lo + 1)"
  have r: "0 \<le> r" "r < hi - lo + 1"
    unfolding r_def using pos_mod_sign[OF pos] pos_mod_bound[OF pos] by blast+
  have s3: "int64 (r + lo) = r + lo" using b r by (intro int64_id) linarith+
  have k: "- 9223372036854775 \<le> r + lo" "r + lo \<le> 9223372036854775" using b r by linarith+
  have s4: "int64 ((r + lo) * 1000) = (r + lo) * 1000" using k by (rule int64_micro)
  have "draw_sleep e s = (Ok ((r + lo) * 1000), s\<lparr>tick := Suc (tick s)\<rparr>)"
    using pos s3 s4
    by (simp add: draw_sleep_def Intn_def s1 s2 lo_def[symmetric] hi_def[symmetric] r_def[symmetric])
  then show ?thesis by (simp add: r_def lo_def hi_def)
qed

lemma draw_sleep_within:
  assumes "sleep_bounds_fit (cfg e)" and "draw_sleep e s = (Ok d, s')"
  shows "MinSleep (cfg e) * 1000 \<le> d \<and> d \<le> MaxSleep (cfg e) * 1000"
proof -
  define lo hi where "lo = MinSleep (cfg e)" and "hi = MaxSleep (cfg e)"
  define r where "r = int (rand_draw (world e) (tick s)) mod (hi - lo + 1)"
  from assms(1) have pos: "0 < hi - lo + 1" by (simp add: sleep_bounds_fit_def lo_def hi_def)
  have r: "0 \<le> r" "r < hi - lo + 1"
    unfolding r_def using pos_mod_sign[OF pos] pos_mod_bound[OF pos] by blast+
  have "d = (r + lo) * 1000"
    using draw_sleep_fit[OF assms(1), of s] assms(2) by (simp add: r_def lo_def hi_def)
  with r show ?thesis unfolding lo_def[symmetric] hi_def[symmetric] by simp
qed

lemma sleeps_within_append:
  "sleeps_within c (xs @ ys) \<longleftrightarrow> sleeps_within c xs \<and> sleeps_within c ys"
  by (auto simp: sleeps_within_def)

lemma sleeps_within_quiet: "\<forall>d. EvSleep d \<notin> set evs \<Longrightarrow> sleeps_within c evs"
  by (simp add: sleeps_within_def)

lemma walk_events_sleeps:
  assumes "(evs = [] \<and> new = [] \<and> (\<exists>p. r = Panic p))
       \<or> (evs = [EvFetch Walk t False] \<and> new = [] \<and> r = Ok False)
       \<or> (evs = EvFetch Walk t True # map EvEnqueue new \<and> (\<exists>p. r = Panic p))
       \<or> (\<exists>d s6 s7. evs = EvFetch Walk t True # map EvEnqueue new @ [EvSleep d]
             \<and> r = Ok True \<and> draw_sleep e s6 = (Ok d, s7))"
  obtains (quiet) "\<forall>d. EvSleep d \<notin> set evs"
  | (slept) d s6 s7 where "evs = EvFetch Walk t True # map EvEnqueue new @ [EvSleep d]"
      "draw_sleep e s6 = (Ok d, s7)"
proof -
  have enq: "\<forall>d. EvSleep d \<notin> set (map EvEnqueue new)" by auto
  from assms consider "evs = []" | "evs = [EvFetch Walk t False]"
    | "evs = EvFetch Walk t True # map EvEnqueue new"
    | d s6 s7 where "evs = EvFetch Walk t True # map EvEnqueue new @ [EvSleep d]"
        "draw_sleep e s6 = (Ok d, s7)"
    by blast
  then show thesis
  proof cases
    case 1
    then show ?thesis using quiet by simp
  next
    case 2
    then show ?thesis using quiet by simp
  next
    case 3
    then have "\<forall>d. EvSleep d \<notin> set evs" using enq by simp
    then show ?thesis by (rule quiet)
  next
    case (4 d s6 s7)
    then show ?thesis by (rule slept)
  qed
qed

lemma within_step:
  assumes fit: "sleep_bounds_fit (cfg e)" and inv: "sleeps_within (cfg e) (trace s)"
    and ws: "walk_step e s = (r, s')"
  shows "sleeps_within (cfg e) (trace s')"
  using ws
proof (cases rule: walk_step_cases)
  case idle
  with inv show ?thesis by simp
next
  case (visit i new evs)
  from visit(7) have "sleeps_within (cfg e) evs"
  proof (cases rule: walk_events_sleeps)
    case quiet
    then show ?thesis by (rule sleeps_within_quiet)
  next
    case (slept d s6 s7)
    from draw_sleep_within[OF fit slept(2)] show ?thesis
      unfolding slept(1) by (auto simp: sleeps_within_def)
  qed
  then have "sleeps_within (cfg e) (EvVisit (links s ! i) # evs)"
    by (auto simp: sleeps_within_def)
  with inv visit(4) show ?thesis by (simp add: sleeps_within_append)
qed

lemma within_seed:
  assumes inv: "sleeps_within (cfg e) (trace s)" and cs: "Crawl_seed e s = (r, s')"
  shows "sleeps_within (cfg e) (trace s')"
  using cs
proof (cases rule: Crawl_seed_cases)
  case (quiet p)
  with inv show ?thesis by (simp add: same_but_tick_def)
next
  case (fetched i ok ls)
  have "sleeps_within (cfg e) (EvFetch Root (RootURLs (cfg e) ! i) ok # map EvEnqueue ls)"
    by (rule sleeps_within_quiet) auto
  with inv fetched(4) show ?thesis by (simp add: sleeps_within_append)
qed

lemma within_Crawl:
  assumes "sleep_bounds_fit (cfg e)" and "sleeps_within (cfg e) (trace s)"
  shows "sleeps_within (cfg e) (trace (snd (Crawl e n s)))"
proof (rule Crawl_rule[where P = "\<lambda>s. sleeps_within (cfg e) (trace s)"
      and W = "\<lambda>s. sleeps_within (cfg e) (trace s)"])
  show "\<And>s s'. sleeps_within (cfg e) (trace s) \<Longrightarrow> same_but_tick s s'
          \<Longrightarrow> sleeps_within (cfg e) (trace s')"
    by (simp add: same_but_tick_def)
  show "\<And>t. sleeps_within (cfg e) (trace s) \<Longrightarrow> sleeps_within (cfg e) (trace (s\<lparr>startTime := t\<rparr>))"
    by simp
  show "\<And>s r s'. sleeps_within (cfg e) (trace s) \<Longrightarrow> Crawl_seed e s = (r, s') \<Longrightarrow>
          sleeps_within (cfg e) (trace s') \<and> (r = Ok True \<longrightarrow> sleeps_within (cfg e) (trace s'))"
    using within_seed by blast
  show "\<And>s r s'. sleeps_within (cfg e) (trace s) \<Longrightarrow> 0 < MaxDepth (cfg e)
          \<Longrightarrow> walk_step e s = (r, s') \<Longrightarrow> sleeps_within (cfg e) (trace s')"
    using within_step[OF assms(1)] by blast
  show "\<And>s. sleeps_within (cfg e) (trace s) \<Longrightarrow> sleeps_within (cfg e) (trace s)" .
  show "sleeps_within (cfg e) (trace s)" by fact
qed

lemma sfv_snoc_quiet:
  assumes "sleeps_follow_visits tr" and "\<forall>d. ev \<noteq> EvSleep d"
  shows "sleeps_follow_visits (tr @ [ev])"
  unfolding sleeps_follow_visits_def
proof (intro allI impI)
  fix xs d ys
  assume eq: "tr @ [ev] = xs @ EvSleep d # ys"
  show "\<exists>zs u new. xs = zs @ EvFetch Walk u True # map EvEnqueue new"
  proof (cases ys rule: rev_cases)
    case Nil
    with eq have "ev = EvSleep d" by simp
    with assms(2) show ?thesis by simp
  next
    case (snoc ys' y)
    with eq have "tr = xs @ EvSleep d # ys'" by simp
    with assms(1) show ?thesis unfolding sleeps_follow_visits_def by blast
  qed
qed

lemma sfv_append_quiet:
  "sleeps_follow_visits tr \<Longrightarrow> \<forall>d. EvSleep d \<notin> set evs \<Longrightarrow> sleeps_follow_visits (tr @ evs)"
proof (induction evs rule: rev_induct)
  case Nil
  then show ?case by simp
next
  case (snoc ev evs)
  then have "sleeps_follow_visits (tr @ evs)" by simp
  moreover have "\<forall>d. ev \<noteq> EvSleep d" using snoc.prems(2) by auto
  ultimately have "sleeps_follow_visits ((tr @ evs) @ [ev])" by (rule sfv_snoc_quiet)
  then show ?case by simp
qed

lemma sfv_snoc_sleep:
  assumes "sleeps_follow_visits tr" and "tr = zs @ EvFetch Walk u True # map EvEnqueue new"
  shows "sleeps_follow_visits (tr @ [EvSleep d])"
  unfolding sleeps_follow_visits_def
proof (intro allI impI)
  fix xs d' ys
  assume eq: "tr @ [EvSleep d] = xs @ EvSleep d' # ys"
  show "\<exists>zs u new. xs = zs @ EvFetch Walk u True # map EvEnqueue new"
  proof (cases ys rule: rev_cases)
    case Nil
    with eq have "xs = tr" by simp
    with assms(2) show ?thesis by blast
  next
    case (snoc ys' y)
    with eq have "tr = xs @ EvSleep d' # ys'" by simp
    with assms(1) show ?thesis unfolding sleeps_follow_visits_def by blast
  qed
qed

lemma starts_with_root_append:
  "starts_with_root tr \<Longrightarrow> tr \<noteq> [] \<Longrightarrow> starts_with_root (tr @ evs)"
  by (cases tr) (simp_all add: starts_with_root_def)

lemma shape_step:
  assumes inv: "shape_inv s \<and> trace s \<noteq> []" and ws: "walk_step e s = (r, s')"
  shows "shape_inv s' \<and> trace s' \<noteq> []"
  using ws
proof (cases rule: walk_step_cases)
  case idle
  with inv show ?thesis by (simp add: shape_inv_def)
next
  case (visit i new evs)
  let ?t = "links s ! i"
  have root: "starts_with_root (trace s')"
    using inv visit(4) by (simp add: shape_inv_def starts_with_root_append)
  have sfv: "sleeps_follow_visits (trace s)" using inv by (simp add: shape_inv_def)
  from visit(7) have "sleeps_follow_visits (trace s @ EvVisit ?t # evs)"
  proof (cases rule: walk_events_sleeps)
    case quiet
    then have "\<forall>d. EvSleep d \<notin> set (EvVisit ?t # evs)" by simp
    with sfv show ?thesis by (rule sfv_append_quiet)
  next
    case (slept d s6 s7)
    let ?mid = "trace s @ EvVisit ?t # EvFetch Walk ?t True # map EvEnqueue new"
    have "\<forall>d. EvSleep d \<notin> set (EvVisit ?t # EvFetch Walk ?t True # map EvEnqueue new)" by auto
    with sfv have "sleeps_follow_visits (trace s @ EvVisit ?t # EvFetch Walk ?t True # map EvEnqueue new)"
      by (rule sfv_append_quiet)
    moreover have "?mid = (trace s @ [EvVisit ?t]) @ EvFetch Walk ?t True # map EvEnqueue new"
      by simp
    ultimately have "sleeps_follow_visits (?mid @ [EvSleep d])" by (rule sfv_snoc_sleep)
    then show ?thesis unfolding slept(1) by simp
  qed
  with root visit(4) show ?thesis by (simp add: shape_inv_def)
qed

lemma shape_seed:
  assumes inv: "shape_inv s" and cs: "Crawl_seed e s = (r, s')"
  shows "shape_inv s' \<and> (r = Ok True \<longrightarrow> shape_inv s' \<and> trace s' \<noteq> [])"
  using cs
proof (cases rule: Crawl_seed_cases)
  case (quiet p)
  with inv show ?thesis by (simp add: shape_inv_def same_but_tick_def)
next
  case (fetched i ok ls)
  let ?new = "EvFetch Root (RootURLs (cfg e) ! i) ok # map EvEnqueue ls"
  have "\<forall>d. EvSleep d \<notin> set ?new" by auto
  with inv have "sleeps_follow_visits (trace s @ ?new)"
    unfolding shape_inv_def by (intro sfv_append_quiet) simp_all
  moreover have "starts_with_root (trace s @ ?new)"
    using inv by (cases "trace s") (simp_all add: shape_inv_def starts_with_root_def)
  ultimately show ?thesis using fetched(4) by (simp add: shape_inv_def)
qed

lemma shape_Crawl:
  assumes "shape_inv s"
  shows "shape_inv (snd (Crawl e n s))"
proof (rule Crawl_rule[where P = shape_inv and W = "\<lambda>s. shape_inv s \<and> trace s \<noteq> []"])
  show "\<And>s s'. shape_inv s \<Longrightarrow> same_but_tick s s' \<Longrightarrow> shape_inv s'"
    by (simp add: shape_inv_def same_but_tick_def)
  show "\<And>t. shape_inv s \<Longrightarrow> shape_inv (s\<lparr>startTime := t\<rparr>)"
    by (simp add: shape_inv_def)
  show "\<And>s r s'. shape_inv s \<Longrightarrow> Crawl_seed e s = (r, s') \<Longrightarrow>
          shape_inv s' \<and> (r = Ok True \<longrightarrow> shape_inv s' \<and> trace s' \<noteq> [])"
    by (rule shape_seed)
  show "\<And>s r s'. shape_inv s \<and> trace s \<noteq> [] \<Longrightarrow> 0 < MaxDepth (cfg e)
          \<Longrightarrow> walk_step e s = (r, s') \<Longrightarrow> shape_inv s' \<and> trace s' \<noteq> []"
    using shape_step by blast
  show "\<And>s. shape_inv s \<and> trace s \<noteq> [] \<Longrightarrow> shape_inv s" by simp
  show "shape_inv s" by fact
qed

text \<open>
  Claim C9, as amended. When the sleep bounds are ordered and fit (between
  \<open>-9223372036854775\<close> and \<open>9223372036854775\<close> microseconds), the duration drawn
  on line 178 lies between \<open>MinSleep\<close> and \<open>MaxSleep\<close> microseconds, every value
  of that range is drawn for some value of the random source, and every sleep of a session
  lies in the range. For every configuration, each sleep of a session comes directly
  after a successful fetch of the walk (and the enqueues from its page), and the first
  event of a session is a root fetch.
\<close>

theorem sleep_in_bounds_after_visit:
  "(sleep_bounds_fit (cfg e) \<longrightarrow>
      (\<forall>d s'. draw_sleep e s = (Ok d, s') \<longrightarrow>
          MinSleep (cfg e) * 1000 \<le> d \<and> d \<le> MaxSleep (cfg e) * 1000)
      \<and> (\<forall>v. MinSleep (cfg e) \<le> v \<and> v \<le> MaxSleep (cfg e)
              \<and> rand_draw (world e) (tick s) = nat (v - MinSleep (cfg e))
            \<longrightarrow> fst (draw_sleep e s) = Ok (v * 1000))
      \<and> (trace s = [] \<longrightarrow> sleeps_within (cfg e) (trace (snd (Crawl e n s)))))
   \<and> (trace s = [] \<longrightarrow>
        sleeps_follow_visits (trace (snd (Crawl e n s)))
        \<and> starts_with_root (trace (snd (Crawl e n s))))"
proof (intro conjI impI allI)
  fix d s'
  assume "sleep_bounds_fit (cfg e)" "draw_sleep e s = (Ok d, s')"
  then show "MinSleep (cfg e) * 1000 \<le> d" and "d \<le> MaxSleep (cfg e) * 1000"
    using draw_sleep_within by blast+
next
  fix v
  assume fit: "sleep_bounds_fit (cfg e)"
    and v: "MinSleep (cfg e) \<le> v \<and> v \<le> MaxSleep (cfg e)
              \<and> rand_draw (world e) (tick s) = nat (v - MinSleep (cfg e))"
  then have "int (rand_draw (world e) (tick s)) mod (MaxSleep (cfg e) - MinSleep (cfg e) + 1)
               = v - MinSleep (cfg e)" by simp
  then show "fst (draw_sleep e s) = Ok (v * 1000)"
    by (simp add: draw_sleep_fit[OF fit])
next
  assume "sleep_bounds_fit (cfg e)" "trace s = []"
  then show "sleeps_within (cfg e) (trace (snd (Crawl e n s)))"
    by (intro within_Crawl) (simp_all add: sleeps_within_def)
next
  assume "trace s = []"
  then have "shape_inv s"
    by (simp add: shape_inv_def sleeps_follow_visits_def starts_with_root_def)
  then have "shape_inv (snd (Crawl e n s))" by (rule shape_Crawl)
  then show "sleeps_follow_visits (trace (snd (Crawl e n s)))"
    and "starts_with_root (trace (snd (Crawl e n s)))"
    by (simp_all add: shape_inv_def)
qed


section \<open>The root fetch and the visited set\<close>

lemma Intn_visited:
  "Intn w n (s\<lparr>visited := V\<rparr>) = (fst (Intn w n s), (snd (Intn w n s))\<lparr>visited := V\<rparr>)"
  by (simp add: Intn_def)

lemma fetch_visited:
  "fetch e raw (s\<lparr>visited := V\<rparr>) = (fst (fetch e raw s), (snd (fetch e raw s))\<lparr>visited := V\<rparr>)"
  by (simp add: fetch_def Intn_def split: option.splits sum.splits)

lemma Crawl_seed_visited: "visited (snd (Crawl_seed e s)) = visited s"
proof -
  obtain r s' where cs: "Crawl_seed e s = (r, s')" by (cases "Crawl_seed e s")
  then have "visited s' = visited s"
    by (cases rule: Crawl_seed_cases) (simp_all add: same_but_tick_def)
  with cs show ?thesis by simp
qed

lemma Crawl_seed_event:
  assumes "Crawl_seed e s = (Ok go, s')"
  shows "\<exists>i ok. i < length (RootURLs (cfg e))
           \<and> take 1 (new_events s s') = [EvFetch Root (RootURLs (cfg e) ! i) ok]"
  using assms
proof (cases rule: Crawl_seed_cases)
  case (quiet p)
  then show ?thesis by simp
next
  case (fetched i ok ls)
  then show ?thesis by (auto simp: new_events_def)
qed

lemma take1_new_events:
  "trace s' = trace s @ ev # evs \<Longrightarrow> take 1 (new_events s s') = [ev]"
  "trace s' = trace s \<Longrightarrow> take 1 (new_events s s') = []"
  by (simp_all add: new_events_def)

lemma Crawl_seed_first_event:
  "take 1 (new_events s (snd (Crawl_seed e (s\<lparr>visited := V\<rparr>))))
     = take 1 (new_events s (snd (Crawl_seed e s)))"
proof -
  let ?n = "int (length (RootURLs (cfg e)))"
  obtain ri s1 where it: "Intn (world e) ?n s = (ri, s1)" by (cases "Intn (world e) ?n s")
  then have itV: "Intn (world e) ?n (s\<lparr>visited := V\<rparr>) = (ri, s1\<lparr>visited := V\<rparr>)"
    by (simp add: Intn_visited)
  have t1: "trace s1 = trace s" using Intn_frame[OF it] by simp
  show ?thesis
  proof (cases ri)
    case (Panic p)
    then show ?thesis using it itV t1 by (simp add: Crawl_seed_def new_events_def)
  next
    case (Ok idx)
    let ?root = "RootURLs (cfg e) ! nat idx"
    obtain rf s2 where ft: "fetch e ?root s1 = (rf, s2)" by (cases "fetch e ?root s1")
    then have ftV: "fetch e ?root (s1\<lparr>visited := V\<rparr>) = (rf, s2\<lparr>visited := V\<rparr>)"
      by (simp add: fetch_visited)
    have t2: "trace s2 = trace s" using fetch_frame[OF ft] t1 by simp
    show ?thesis
    proof (cases rf)
      case (Panic p)
      then show ?thesis using it itV Ok ft ftV t2 by (simp add: Crawl_seed_def new_events_def)
    next
      case okf: (Ok be)
      obtain body err where be: "be = (body, err)" by (cases be)
      show ?thesis
      proof (cases err)
        case (Some er)
        then show ?thesis
          using it itV Ok ft ftV t2 okf be by (simp add: Crawl_seed_def new_events_def)
      next
        case None
        have a: "take 1 (new_events s (snd (Crawl_seed e s))) = [EvFetch Root ?root True]"
          using it Ok ft t2 okf be None
          by (simp add: Crawl_seed_def new_events_def Let_def split: res.splits)
        have b: "take 1 (new_events s (snd (Crawl_seed e (s\<lparr>visited := V\<rparr>))))
                   = [EvFetch Root ?root True]"
          using itV Ok ftV t2 okf be None
          by (simp add: Crawl_seed_def new_events_def Let_def split: res.splits)
        from a b show ?thesis by simp
      qed
    qed
  qed
qed

lemma grown_refl: "grown s s"
  by (simp add: grown_def visits_simps)

lemma grown_extend:
  assumes "grown s0 s" "trace s' = trace s @ evs" "visited s' = visited s \<union> visits evs"
  shows "grown s0 s'"
proof -
  from assms(1) obtain old where "trace s = trace s0 @ old" "visited s = visited s0 \<union> visits old"
    by (auto simp: grown_def)
  with assms(2,3) have "trace s' = trace s0 @ (old @ evs)"
    "visited s' = visited s0 \<union> visits (old @ evs)" by (auto simp: visits_append)
  then show ?thesis unfolding grown_def by blast
qed

lemma grown_Crawl: "grown s (snd (Crawl e n s))"
proof (rule Crawl_rule[where P = "grown s" and W = "grown s"])
  show "\<And>s1 s'. grown s s1 \<Longrightarrow> same_but_tick s1 s' \<Longrightarrow> grown s s'"
    by (simp add: grown_def same_but_tick_def)
  show "\<And>t. grown s s \<Longrightarrow> grown s (s\<lparr>startTime := t\<rparr>)"
    by (simp add: grown_def visits_simps)
  show "\<And>s1 r s'. grown s s1 \<Longrightarrow> Crawl_seed e s1 = (r, s') \<Longrightarrow>
          grown s s' \<and> (r = Ok True \<longrightarrow> grown s s')"
  proof -
    fix s1 r s'
    assume a: "grown s s1" and cs: "Crawl_seed e s1 = (r, s')"
    from cs have "grown s s'"
    proof (cases rule: Crawl_seed_cases)
      case (quiet p)
      with a show ?thesis by (simp add: grown_def same_but_tick_def)
    next
      case (fetched i ok ls)
      show ?thesis
        by (rule grown_extend[OF a fetched(4)])
           (simp add: fetched(2) visits_simps visits_map_enqueue)
    qed
    then show "grown s s' \<and> (r = Ok True \<longrightarrow> grown s s')" by simp
  qed
  show "\<And>s1 r s'. grown s s1 \<Longrightarrow> 0 < MaxDepth (cfg e) \<Longrightarrow> walk_step e s1 = (r, s') \<Longrightarrow> grown s s'"
  proof -
    fix s1 r s'
    assume a: "grown s s1" and ws: "walk_step e s1 = (r, s')"
    from ws show "grown s s'"
    proof (cases rule: walk_step_cases)
      case idle
      with a show ?thesis by (simp add: grown_def)
    next
      case (visit i new evs)
      note ve = walk_events_visits[OF visit(7)]
      show ?thesis
        by (rule grown_extend[OF a visit(4)]) (simp add: visit(2) visits_simps ve)
    qed
  qed
  show "\<And>s1. grown s s1 \<Longrightarrow> grown s s1" .
  show "grown s s" by (rule grown_refl)
qed

text \<open>
  Claim C10. The seeding phase of an outer iteration (root selection, root fetch, seeding
  of the queue) leaves the visited set as it was; the root it fetches and the outcome of
  that fetch are the same whatever the visited set contains; whenever the phase does not
  panic, it has fetched a root; and over a whole session the visited set grows by exactly
  the URLs that the walk's dequeue step inserted (the \<open>EvVisit\<close> events).
\<close>

theorem root_fetch_ignores_visited:
  "visited (snd (Crawl_seed e s)) = visited s
   \<and> take 1 (new_events s (snd (Crawl_seed e (s\<lparr>visited := V\<rparr>))))
       = take 1 (new_events s (snd (Crawl_seed e s)))
   \<and> (\<forall>go. fst (Crawl_seed e s) = Ok go \<longrightarrow>
         (\<exists>i ok. i < length (RootURLs (cfg e))
            \<and> take 1 (new_events s (snd (Crawl_seed e s))) = [EvFetch Root (RootURLs (cfg e) ! i) ok]))
   \<and> (\<exists>evs. trace (snd (Crawl e n s)) = trace s @ evs
          \<and> visited (snd (Crawl e n s)) = visited s \<union> visits evs)"
proof (intro conjI allI impI)
  show "visited (snd (Crawl_seed e s)) = visited s" by (rule Crawl_seed_visited)
  show "take 1 (new_events s (snd (Crawl_seed e (s\<lparr>visited := V\<rparr>))))
       = take 1 (new_events s (snd (Crawl_seed e s)))" by (rule Crawl_seed_first_event)
  show "\<exists>evs. trace (snd (Crawl e n s)) = trace s @ evs
          \<and> visited (snd (Crawl e n s)) = visited s \<union> visits evs"
    using grown_Crawl[of s e n] by (simp add: grown_def)
next
  fix go
  assume "fst (Crawl_seed e s) = Ok go"
  then have "Crawl_seed e s = (Ok go, snd (Crawl_seed e s))" by (metis prod.collapse)
  then show "\<exists>i ok. i < length (RootURLs (cfg e))
            \<and> take 1 (new_events s (snd (Crawl_seed e s))) = [EvFetch Root (RootURLs (cfg e) ! i) ok]"
    by (rule Crawl_seed_event)
qed

section \<open>Runs on the demo site\<close>

lemma demo_stop:
  "stop_requested (demo_env root depth pause) s = (False, s\<lparr>tick := Suc (tick s)\<rparr>)"
  by (simp add: stop_requested_def isTimeoutReached_def demo_env_def demo_world_def demo_cfg_def)

lemma demo_Intn:
  "0 < n \<Longrightarrow> Intn (world (demo_env root depth pause)) n s = (Ok 0, s\<lparr>tick := Suc (tick s)\<rparr>)"
  by (simp add: Intn_def demo_env_def demo_world_def)

lemma demo_fetch:
  assumes "go_Parse u = Inr b" "demo_page u = Some (code, body)" "length body < 2 ^ 20"
  shows "fetch (demo_env root depth pause) u s = (Ok (body, None), s\<lparr>tick := Suc (Suc (tick s))\<rparr>)"
proof -
  have ua: "int (length (UserAgents (cfg (demo_env root depth pause)))) = 1"
    by (simp add: demo_env_def demo_cfg_def)
  have nr: "NewRequestWithContext (lib (demo_env root depth pause)) u = None"
    using assms(1) by (simp add: demo_env_def demo_lib_def go_lib_def)
  have d: "client_Do (world (demo_env root depth pause)) t u a =
             Inr \<lparr>StatusCode = code, Body = \<lparr>content = body, failure = None\<rparr>\<rparr>" for t a
    using assms(2) by (simp add: demo_env_def demo_world_def)
  show ?thesis
    using assms(3) by (simp add: fetch_def nr ua demo_Intn d ReadAll_LimitReader_def)
qed

lemma demo_page_values:
  "demo_page ''http://r.example/home'' = Some (200, ''<a href=/home>home</a>'')"
  "demo_page ''http://r.example/dup'' = Some (200, ''<a href=/p>1</a><a href=/p>2</a><a href=/ads/x>3</a>'')"
  "demo_page ''http://r.example/p'' = Some (200, ''no links'')"
  by (simp_all add: demo_page_def)

lemma demo_fetch_home:
  "fetch (demo_env root depth pause) ''http://r.example/home'' s =
     (Ok (''<a href=/home>home</a>'', None), s\<lparr>tick := Suc (Suc (tick s))\<rparr>)"
  by (rule demo_fetch[OF parse_home demo_page_values(1)]) simp

lemma demo_fetch_dup:
  "fetch (demo_env root depth pause) ''http://r.example/dup'' s =
     (Ok (''<a href=/p>1</a><a href=/p>2</a><a href=/ads/x>3</a>'', None),
      s\<lparr>tick := Suc (Suc (tick s))\<rparr>)"
  by (rule demo_fetch[OF parse_dup demo_page_values(2)]) simp

lemma demo_fetch_p:
  "fetch (demo_env root depth pause) ''http://r.example/p'' s =
     (Ok (''no links'', None), s\<lparr>tick := Suc (Suc (tick s))\<rparr>)"
  by (rule demo_fetch[OF parse_p demo_page_values(3)]) simp

lemma collected_home:
  "collected demo_lib (demo_cfg root depth pause) vis (site_url ''/home'')
       [anchor ''/home'', text_token, anchor_end] =
     (if ''http://r.example/home'' \<in> vis then [] else [''http://r.example/home''])"
  by (simp add: collected_def anchor_hrefs_def token_types resolved_home accept_home)

lemma collected_text:
  "collected demo_lib (demo_cfg root depth pause) vis b [text_token] = []"
  by (simp add: collected_def anchor_hrefs_def token_types)

lemma demo_extract_home:
  "extractLinks (lib (demo_env root depth pause)) (cfg (demo_env root depth pause)) vis
      ''<a href=/home>home</a>'' ''http://r.example/home'' =
     Ok (if ''http://r.example/home'' \<in> vis then [] else [''http://r.example/home''])"
proof -
  have "url_Parse demo_lib ''http://r.example/home'' = Inr (site_url ''/home'')"
    by (simp add: url_Parse_demo parse_home)
  from extractLinks_parsed[OF this] show ?thesis
    by (simp add: demo_env_def tokens_home collected_home token_types)
qed

lemma demo_extract_dup:
  "extractLinks (lib (demo_env root depth pause)) (cfg (demo_env root depth pause)) vis
      ''<a href=/p>1</a><a href=/p>2</a><a href=/ads/x>3</a>'' ''http://r.example/dup'' =
     Ok (if ''http://r.example/p'' \<in> vis then [] else [''http://r.example/p'', ''http://r.example/p''])"
proof -
  have "url_Parse demo_lib ''http://r.example/dup'' = Inr (site_url ''/dup'')"
    by (simp add: url_Parse_demo parse_dup)
  from extractLinks_parsed[OF this] show ?thesis
    by (simp add: demo_env_def tokens_dup collected_dup token_types)
qed

lemma demo_extract_p:
  "extractLinks (lib (demo_env root depth pause)) (cfg (demo_env root depth pause)) vis
      ''no links'' ''http://r.example/p'' = Ok []"
proof -
  have "url_Parse demo_lib ''http://r.example/p'' = Inr (site_url ''/p'')"
    by (simp add: url_Parse_demo parse_p)
  from extractLinks_parsed[OF this] show ?thesis
    by (simp add: demo_env_def tokens_text collected_text token_types)
qed

lemma demo_draw_sleep:
  "draw_sleep (demo_env root depth pause) s =
     (Ok (int64 (int64 pause * 1000)), s\<lparr>tick := Suc (tick s)\<rparr>)"
proof -
  have "int64 (int64 (MaxSleep (cfg (demo_env root depth pause))
           - MinSleep (cfg (demo_env root depth pause))) + 1) = 1"
    by (simp add: demo_env_def demo_cfg_def int64_def)
  then show ?thesis
    by (simp add: draw_sleep_def demo_Intn) (simp add: demo_env_def demo_cfg_def)
qed

lemma demo_cfg_fields:
  "RootURLs (cfg (demo_env root depth pause)) = [root]"
  "MaxDepth (cfg (demo_env root depth pause)) = depth"
  "MinSleep (cfg (demo_env root depth pause)) = pause"
  "MaxSleep (cfg (demo_env root depth pause)) = pause"
  by (simp_all add: demo_env_def demo_cfg_def)

lemma demo_clock: "clock (world (demo_env root depth pause)) 0 = 0"
  by (simp add: demo_env_def demo_world_def)

lemmas demo_steps = demo_stop demo_Intn demo_fetch_home demo_fetch_dup demo_fetch_p
  demo_extract_home demo_extract_dup demo_extract_p demo_draw_sleep demo_cfg_fields demo_clock

lemma run_home:
  "Crawl (demo_env ''http://r.example/home'' 1 0) 2 NewCrawler =
     (Running,
      \<lparr>links = [], visited = {''http://r.example/home''}, startTime = 0, tick = 15,
       trace = [EvFetch Root ''http://r.example/home'' True, EvEnqueue ''http://r.example/home'',
                EvVisit ''http://r.example/home'', EvFetch Walk ''http://r.example/home'' True,
                EvSleep 0, EvFetch Root ''http://r.example/home'' True]\<rparr>)"
proof -
  let ?e = "demo_env ''http://r.example/home'' 1 0"
  have i0: "int64 0 = 0" by (simp add: int64_def)
  show ?thesis
    by (simp add: numeral_2_eq_2 Crawl_def NewCrawler_def Crawl_seed_def
          depthFirst_unfold[of ?e 0] depthFirst_unfold[of ?e 1] walk_step_def demo_steps
          Let_def i0)
qed

lemma run_dup:
  "Crawl (demo_env ''http://r.example/dup'' 1 pause) (Suc 0) NewCrawler =
     (Running,
      \<lparr>links = [''http://r.example/p''], visited = {''http://r.example/p''}, startTime = 0,
       tick = 11,
       trace = [EvFetch Root ''http://r.example/dup'' True, EvEnqueue ''http://r.example/p'',
                EvEnqueue ''http://r.example/p'', EvVisit ''http://r.example/p'',
                EvFetch Walk ''http://r.example/p'' True,
                EvSleep (int64 (int64 pause * 1000))]\<rparr>)"
proof -
  let ?e = "demo_env ''http://r.example/dup'' 1 pause"
  show ?thesis
    by (simp add: Crawl_def NewCrawler_def Crawl_seed_def
          depthFirst_unfold[of ?e 0] depthFirst_unfold[of ?e 1] walk_step_def demo_steps
          Let_def)
qed

lemma run_dup_deeper:
  "Crawl (demo_env ''http://r.example/dup'' 2 0) (Suc 0) NewCrawler =
     (Running,
      \<lparr>links = [], visited = {''http://r.example/p''}, startTime = 0, tick = 17,
       trace = [EvFetch Root ''http://r.example/dup'' True, EvEnqueue ''http://r.example/p'',
                EvEnqueue ''http://r.example/p'', EvVisit ''http://r.example/p'',
                EvFetch Walk ''http://r.example/p'' True, EvSleep 0,
                EvVisit ''http://r.example/p'', EvFetch Walk ''http://r.example/p'' True,
                EvSleep 0]\<rparr>)"
proof -
  let ?e = "demo_env ''http://r.example/dup'' 2 0"
  have i0: "int64 0 = 0" by (simp add: int64_def)
  show ?thesis
    by (simp add: Crawl_def NewCrawler_def Crawl_seed_def
          depthFirst_unfold[of ?e 0] depthFirst_unfold[of ?e 1] depthFirst_unfold[of ?e 2]
          walk_step_def demo_steps Let_def i0)
qed

lemma seed_visited_home:
  "Crawl_seed (demo_env ''http://r.example/home'' 1 0)
      (NewCrawler\<lparr>visited := {''http://r.example/home''}\<rparr>) =
     (Ok False,
      \<lparr>links = [], visited = {''http://r.example/home''}, startTime = 0, tick = 3,
       trace = [EvFetch Root ''http://r.example/home'' True]\<rparr>)"
  by (simp add: NewCrawler_def Crawl_seed_def demo_steps Let_def)


section \<open>Witnesses and counterexamples\<close>

theorem visited_never_enqueued_witness:
  "EvEnqueue ''http://r.example/home''
      \<notin> set [EvFetch Walk ''http://r.example/home'' True, EvSleep 0,
              EvFetch Root ''http://r.example/home'' True]
   \<and> ''http://r.example/home''
      \<in> visited (snd (Crawl (demo_env ''http://r.example/home'' 1 0) 2 NewCrawler))"
proof -
  let ?e = "demo_env ''http://r.example/home'' 1 0"
  have t0: "trace NewCrawler = []" by (simp add: NewCrawler_def)
  have tr: "trace (snd (Crawl ?e 2 NewCrawler)) =
      [EvFetch Root ''http://r.example/home'' True, EvEnqueue ''http://r.example/home'']
      @ EvVisit ''http://r.example/home''
      # [EvFetch Walk ''http://r.example/home'' True, EvSleep 0,
         EvFetch Root ''http://r.example/home'' True]"
    by (simp add: run_home)
  from visited_never_enqueued[OF t0 tr] show ?thesis .
qed

text \<open>
  Claim C1 as stated fails. With the single root \<open>/home\<close>, whose page links to itself,
  the walk inserts \<open>/home\<close> into the visited set and fetches it, and the next outer
  iteration fetches it again as its root: two fetches after the insertion.
\<close>

theorem idempotent_visitation_counterexample:
  "\<not> idempotent_visitation
       (trace (snd (Crawl (demo_env ''http://r.example/home'' 1 0) 2 NewCrawler)))"
proof
  let ?h = "''http://r.example/home''"
  let ?ys = "[EvFetch Walk ?h True, EvSleep 0, EvFetch Root ?h True]"
  assume "idempotent_visitation (trace (snd (Crawl (demo_env ?h 1 0) 2 NewCrawler)))"
  moreover have "trace (snd (Crawl (demo_env ?h 1 0) 2 NewCrawler)) =
      [EvFetch Root ?h True, EvEnqueue ?h] @ EvVisit ?h # ?ys"
    by (simp add: run_home)
  ultimately have "fetches_of ?h ?ys \<le> 1"
    unfolding idempotent_visitation_def by blast
  then show False by (simp add: fetches_of_def)
qed

text \<open>
  Claim C2 fails on the code. The page \<open>/dup\<close> holds two anchors with the same
  address. Both copies are put into the queue; after the walk has taken one of them, the
  address is in the visited set and still in the queue. With \<open>MaxDepth = 2\<close> the walk
  then takes the second copy and fetches the address a second time.
\<close>

theorem queue_holds_visited_link:
  "''http://r.example/p''
      \<in> set (links (snd (Crawl (demo_env ''http://r.example/dup'' 1 0) (Suc 0) NewCrawler)))
   \<and> ''http://r.example/p''
      \<in> visited (snd (Crawl (demo_env ''http://r.example/dup'' 1 0) (Suc 0) NewCrawler))
   \<and> fetches_of ''http://r.example/p''
        (trace (snd (Crawl (demo_env ''http://r.example/dup'' 2 0) (Suc 0) NewCrawler))) = 2"
  by (simp add: run_dup run_dup_deeper fetches_of_def)

theorem depth_limit_stops_walk_witness:
  "depthFirst (demo_env ''http://r.example/dup'' 0 0) 0 NewCrawler = (Ok (), NewCrawler)
   \<and> filter walk_event
        (new_events NewCrawler (snd (Crawl (demo_env ''http://r.example/dup'' 0 0) 3 NewCrawler))) = []
   \<and> visited (snd (Crawl (demo_env ''http://r.example/dup'' 0 0) 3 NewCrawler)) = {}"
proof -
  let ?e = "demo_env ''http://r.example/dup'' 0 0"
  have m: "MaxDepth (cfg ?e) = 0" "MaxDepth (cfg ?e) \<le> 0" by (simp_all add: demo_cfg_fields)
  have v: "visited NewCrawler = {}" by (simp add: NewCrawler_def)
  show ?thesis
    using depth_limit_stops_walk[of ?e 0 NewCrawler 3] m v
    by (simp add: filter_empty_conv)
qed

lemma slow_env_fields:
  "Timeout (cfg (slow_env root depth)) = 1"
  "clock (world (slow_env root depth)) t = int t * 1000000000"
  "ctx_Err (world (slow_env root depth)) t = False"
  by (simp_all add: slow_env_def demo_cfg_def demo_world_def)

theorem stop_check_prevents_fetch_witness:
  "steady (world (slow_env ''http://r.example/dup'' 2))
   \<and> cancelled_or_timed_out (slow_env ''http://r.example/dup'' 2) (NewCrawler\<lparr>tick := 2\<rparr>)
   \<and> fst (Crawl_loop (slow_env ''http://r.example/dup'' 2) (Suc 0) (NewCrawler\<lparr>tick := 2\<rparr>)) = Returned
   \<and> trace (snd (Crawl_loop (slow_env ''http://r.example/dup'' 2) (Suc 0) (NewCrawler\<lparr>tick := 2\<rparr>))) = []
   \<and> fst (depthFirst (slow_env ''http://r.example/dup'' 2) 0 (NewCrawler\<lparr>tick := 2\<rparr>)) = Ok ()
   \<and> trace (snd (depthFirst (slow_env ''http://r.example/dup'' 2) 0 (NewCrawler\<lparr>tick := 2\<rparr>))) = []"
proof -
  let ?e = "slow_env ''http://r.example/dup'' 2"
  let ?s = "NewCrawler\<lparr>tick := 2\<rparr>"
  have st: "steady (world ?e)" by (simp add: steady_def slow_env_fields)
  have c: "cancelled_or_timed_out ?e ?s"
    by (simp add: cancelled_or_timed_out_def slow_env_fields NewCrawler_def time_Since_def)
  have t: "trace ?s = []" by (simp add: NewCrawler_def)
  from stop_check_prevents_fetch[OF st c, of 0 0] obtain s1 s2 where
    l: "Crawl_loop ?e (Suc 0) ?s = (Returned, s1)" "same_but_tick ?s s1"
    and d: "depthFirst ?e 0 ?s = (Ok (), s2)" "same_but_tick ?s s2"
    by blast
  have "trace s1 = []" "trace s2 = []" using l(2) d(2) t by (simp_all add: same_but_tick_def)
  with st c l(1) d(1) show ?thesis by simp
qed

theorem sleep_in_bounds_after_visit_witness:
  "sleep_bounds_fit (cfg (demo_env ''http://r.example/dup'' 1 5))
   \<and> fst (draw_sleep (demo_env ''http://r.example/dup'' 1 5) NewCrawler) = Ok 5000
   \<and> sleeps_within (cfg (demo_env ''http://r.example/dup'' 1 5))
        (trace (snd (Crawl (demo_env ''http://r.example/dup'' 1 5) (Suc 0) NewCrawler)))
   \<and> sleeps_follow_visits (trace (snd (Crawl (demo_env ''http://r.example/dup'' 1 5) (Suc 0) NewCrawler)))
   \<and> starts_with_root (trace (snd (Crawl (demo_env ''http://r.example/dup'' 1 5) (Suc 0) NewCrawler)))"
proof -
  let ?e = "demo_env ''http://r.example/dup'' 1 5"
  have fit: "sleep_bounds_fit (cfg ?e)" by (simp add: sleep_bounds_fit_def demo_cfg_fields)
  have t: "trace NewCrawler = []" by (simp add: NewCrawler_def)
  have v: "MinSleep (cfg ?e) \<le> 5 \<and> 5 \<le> MaxSleep (cfg ?e)
            \<and> rand_draw (world ?e) (tick NewCrawler) = nat (5 - MinSleep (cfg ?e))"
    by (simp add: demo_cfg_fields) (simp add: demo_env_def demo_world_def)
  note th = sleep_in_bounds_after_visit[of ?e NewCrawler "Suc 0"]
  from th fit v have "fst (draw_sleep ?e NewCrawler) = Ok (5 * 1000)" by blast
  moreover from th fit t have "sleeps_within (cfg ?e) (trace (snd (Crawl ?e (Suc 0) NewCrawler)))"
    by blast
  moreover from th t have "sleeps_follow_visits (trace (snd (Crawl ?e (Suc 0) NewCrawler)))"
    "starts_with_root (trace (snd (Crawl ?e (Suc 0) NewCrawler)))" by blast+
  ultimately show ?thesis using fit by simp
qed

text \<open>
  Claim C9 as stated fails. With \<open>MinSleep = MaxSleep = 9223372036854776\<close>
  microseconds the bounds are ordered, but the multiplication by 1000 leaves the 64-bit
  range: the duration passed to \<open>time.Sleep\<close> is \<open>-9223372036854775616\<close> nanoseconds.
\<close>

theorem sleeps_within_counterexample:
  "MinSleep (cfg (demo_env ''http://r.example/dup'' 1 9223372036854776))
     \<le> MaxSleep (cfg (demo_env ''http://r.example/dup'' 1 9223372036854776))
   \<and> EvSleep (- 9223372036854775616)
       \<in> set (trace (snd (Crawl (demo_env ''http://r.example/dup'' 1 9223372036854776) (Suc 0) NewCrawler)))
   \<and> \<not> sleeps_within (cfg (demo_env ''http://r.example/dup'' 1 9223372036854776))
         (trace (snd (Crawl (demo_env ''http://r.example/dup'' 1 9223372036854776) (Suc 0) NewCrawler)))"
proof -
  have w: "int64 (int64 9223372036854776 * 1000) = - 9223372036854775616"
    by (simp add: int64_def)
  show ?thesis
    by (simp add: run_dup w demo_cfg_fields sleeps_within_def)
qed

theorem root_fetch_ignores_visited_witness:
  "''http://r.example/home'' \<in> visited (NewCrawler\<lparr>visited := {''http://r.example/home''}\<rparr>)
   \<and> visited (snd (Crawl_seed (demo_env ''http://r.example/home'' 1 0)
         (NewCrawler\<lparr>visited := {''http://r.example/home''}\<rparr>))) = {''http://r.example/home''}
   \<and> take 1 (new_events (NewCrawler\<lparr>visited := {''http://r.example/home''}\<rparr>)
         (snd (Crawl_seed (demo_env ''http://r.example/home'' 1 0)
            (NewCrawler\<lparr>visited := {''http://r.example/home''}\<rparr>))))
       = [EvFetch Root ''http://r.example/home'' True]"
proof -
  let ?e = "demo_env ''http://r.example/home'' 1 0"
  let ?s = "NewCrawler\<lparr>visited := {''http://r.example/home''}\<rparr>"
  have ok: "fst (Crawl_seed ?e ?s) = Ok False" by (simp add: seed_visited_home)
  have t: "trace ?s = []" by (simp add: NewCrawler_def)
  note th = root_fetch_ignores_visited[of ?e ?s "{}" 0]
  from th have "visited (snd (Crawl_seed ?e ?s)) = visited ?s" by blast
  moreover from th ok obtain i b where "i < length (RootURLs (cfg ?e))"
    "take 1 (new_events ?s (snd (Crawl_seed ?e ?s))) = [EvFetch Root (RootURLs (cfg ?e) ! i) b]"
    by blast
  moreover have "take 1 (new_events ?s (snd (Crawl_seed ?e ?s)))
                   = [EvFetch Root ''http://r.example/home'' True]"
    by (simp add: seed_visited_home new_events_def t)
  ultimately show ?thesis by simp
qed

end
